theory Spec2Isabelle
  imports Main "HOL-Library.Word"
begin

section \<open>Bytes, memory and the constants of \<^verbatim>\<open>csv_splitter.hpp\<close>\<close>

text \<open>
  The program handles its input as raw \<^verbatim>\<open>uint8_t\<close> values and only ever compares them
  with the three structural bytes, so a byte is a \<^typ>\<open>char\<close> (eight bits) and a byte
  sequence is a \<^typ>\<open>string\<close>. A \<^verbatim>\<open>uint8_t*\<close> buffer is a function from offsets to bytes;
  a pointer into the input buffer is its offset from \<^verbatim>\<open>input_buffer\<close>. Uninitialised
  memory (\<^verbatim>\<open>malloc\<close>, \<^verbatim>\<open>alloca\<close>) holds whatever the environment put there.
  \<^verbatim>\<open>size_t\<close> counters are natural numbers: no counter of a run comes near \<open>2^64\<close>.
\<close>

type_synonym byte = char
type_synonym memory = "nat \<Rightarrow> byte"

abbreviation NEWLINE :: byte where "NEWLINE \<equiv> CHR 0x0A"
abbreviation COMMA :: byte where "COMMA \<equiv> CHR 0x2C"
abbreviation DQUOTE :: byte where "DQUOTE \<equiv> CHR 0x22"

definition BUFFER_SIZE :: nat where
  "BUFFER_SIZE = 16 * 1024"

text \<open>The input buffer is allocated with \<^verbatim>\<open>BUFFER_SIZE + 10\<close> bytes.\<close>

definition INPUT_ALLOC :: nat where
  "INPUT_ALLOC = BUFFER_SIZE + 10"

definition memset :: "memory \<Rightarrow> nat \<Rightarrow> byte \<Rightarrow> nat \<Rightarrow> memory" where
  "memset dst p c n = (\<lambda>i. if p \<le> i \<and> i < p + n then c else dst i)"

definition memcpy :: "memory \<Rightarrow> nat \<Rightarrow> memory \<Rightarrow> nat \<Rightarrow> nat \<Rightarrow> memory" where
  "memcpy dst p src q n = (\<lambda>i. if p \<le> i \<and> i < p + n then src (q + (i - p)) else dst i)"

text \<open>\<open>bytes_at m p n\<close> are the \<open>n\<close> bytes of \<open>m\<close> from offset \<open>p\<close> on.\<close>

primrec bytes_at :: "memory \<Rightarrow> nat \<Rightarrow> nat \<Rightarrow> byte list" where
  "bytes_at m p 0 = []"
| "bytes_at m p (Suc n) = m p # bytes_at m (Suc p) n"

text \<open>
  \<^verbatim>\<open>rawmemchr\<close> scans without a bound. A scan that leaves the allocation is undefined
  behaviour in C; here it finds nothing.
\<close>

function rawmemchr :: "memory \<Rightarrow> nat \<Rightarrow> byte \<Rightarrow> nat option" where
  "rawmemchr m p c =
     (if INPUT_ALLOC \<le> p then None
      else if m p = c then Some p
      else rawmemchr m (p + 1) c)"
  by pat_completeness auto
termination
  by (relation "measure (\<lambda>(m, p, c). INPUT_ALLOC - p)") auto

declare rawmemchr.simps [simp del]

section \<open>The environment of a run\<close>

text \<open>
  What the operating system decides: the stack limit \<^verbatim>\<open>getrlimit\<close> reports (\<open>None\<close> when
  the call fails), which output paths \<^verbatim>\<open>open\<close> can create, which input paths it can open,
  and the contents of fresh memory. A \<^verbatim>\<open>write\<close> is taken to write all it is given, which is
  what \<^verbatim>\<open>flush_buffer\<close> asserts.
\<close>

record environment =
  stack_limit :: "64 word option"
  can_create :: "string \<Rightarrow> bool"
  can_open :: "string \<Rightarrow> bool"
  fresh_input_buffer :: memory
  fresh_column_buffer :: "nat \<Rightarrow> memory"

text \<open>The results of the successive \<^verbatim>\<open>read\<close> calls; after the last one \<^verbatim>\<open>read\<close> returns 0.\<close>

datatype read_result = ReadError | Bytes "byte list"

datatype error = ReadFailed | OpenFailed | AssertionFailed | MemoryFault | Diverges

text \<open>
  \<^verbatim>\<open>required_stack\<close> is a \<^verbatim>\<open>static const\<close> local: it is initialised by the first call,
  which is \<^verbatim>\<open>should_use_heap(BUFFER_SIZE + 10)\<close> in \<^verbatim>\<open>split_csv\<close>, and keeps that value.
\<close>

definition should_use_heap :: "environment \<Rightarrow> nat \<Rightarrow> bool" where
  "should_use_heap env required_stack =
     (case stack_limit env of
        None \<Rightarrow> True
      | Some rlim_cur \<Rightarrow> unat ((9 * rlim_cur) div 10) < required_stack)"

section \<open>The column sink\<close>

text \<open>
  \<^verbatim>\<open>class ColumnInfo\<close>. The descriptor \<open>output_fd\<close> is the path it was opened on, and
  \<open>written\<close> is what has been written to it so far.
\<close>

record ColumnInfo =
  output_fd :: string
  written :: "byte list"
  buffer :: memory
  buffer_size :: nat
  buffer_position :: nat
  on_heap :: bool

definition flush_buffer :: "ColumnInfo \<Rightarrow> ColumnInfo" where
  "flush_buffer column =
     column\<lparr>written := written column @ bytes_at (buffer column) 0 (buffer_position column),
            buffer_position := 0\<rparr>"

text \<open>
  The \<^verbatim>\<open>while\<close> loop of \<^verbatim>\<open>add_buffer_to_column\<close>. With a buffer of size 0 it never ends
  (\<open>None\<close>).
\<close>

function add_buffer_loop ::
  "ColumnInfo \<Rightarrow> memory \<Rightarrow> nat \<Rightarrow> nat \<Rightarrow> nat \<Rightarrow> (ColumnInfo \<times> nat \<times> nat) option" where
  "add_buffer_loop column src from_buffer copy_size remaining_buffer =
     (if buffer_size column = 0 then None
      else if copy_size \<ge> remaining_buffer then
        add_buffer_loop
          (flush_buffer
             (column\<lparr>buffer := memcpy (buffer column) (buffer_position column)
                                  src from_buffer remaining_buffer,
                     buffer_position := buffer_position column + remaining_buffer\<rparr>))
          src (from_buffer + remaining_buffer) (copy_size - remaining_buffer)
          (buffer_size column)
      else Some (column, from_buffer, copy_size))"
  by pat_completeness auto
termination
  by (relation "measures [\<lambda>(column, src, f, n, r). n,
                          \<lambda>(column, src, f, n, r). if r = 0 then 1 else 0]") auto

declare add_buffer_loop.simps [simp del]

definition add_buffer_to_column ::
  "ColumnInfo \<Rightarrow> memory \<Rightarrow> nat \<Rightarrow> nat \<Rightarrow> ColumnInfo option" where
  "add_buffer_to_column column src from_buffer copy_size =
     (case add_buffer_loop column src from_buffer copy_size
             (buffer_size column - buffer_position column) of
        None \<Rightarrow> None
      | Some (column', from_buffer', copy_size') \<Rightarrow>
          Some (if copy_size' \<noteq> 0
                then column'\<lparr>buffer := memcpy (buffer column') (buffer_position column')
                                          src from_buffer' copy_size',
                              buffer_position := buffer_position column' + copy_size'\<rparr>
                else column'))"

text \<open>The \<^verbatim>\<open>while\<close> loop of \<^verbatim>\<open>add_chars_to_column\<close>.\<close>

function flush_while :: "ColumnInfo \<Rightarrow> nat \<Rightarrow> (ColumnInfo \<times> nat) option" where
  "flush_while column copy_size =
     (if buffer_size column = 0 then None
      else if copy_size \<ge> buffer_size column then
        flush_while (flush_buffer column) (copy_size - buffer_size column)
      else Some (column, copy_size))"
  by pat_completeness auto
termination
  by (relation "measure (\<lambda>(column, n). n)") auto

declare flush_while.simps [simp del]

definition add_chars_to_column :: "ColumnInfo \<Rightarrow> byte \<Rightarrow> nat \<Rightarrow> ColumnInfo option" where
  "add_chars_to_column column chr copy_size =
     (if buffer_position column + copy_size \<le> buffer_size column then
        Some (column\<lparr>buffer := memset (buffer column) (buffer_position column) chr copy_size,
                     buffer_position := buffer_position column + copy_size\<rparr>)
      else
        (let column1 = (if buffer_position column \<noteq> 0 then flush_buffer column else column)
         in if copy_size \<ge> buffer_size column1 then
              (case flush_while
                      (column1\<lparr>buffer := memset (buffer column1) 0 chr (buffer_size column1)\<rparr>)
                      copy_size of
                 None \<Rightarrow> None
               | Some (column2, copy_size') \<Rightarrow> Some (column2\<lparr>buffer_position := copy_size'\<rparr>))
            else
              Some (column1\<lparr>buffer := memset (buffer column1) 0 chr copy_size,
                            buffer_position := copy_size\<rparr>)))"

text \<open>
  What a column has been given: the bytes written to its file followed by the bytes
  pending in its buffer.
\<close>

definition column_output :: "ColumnInfo \<Rightarrow> byte list" where
  "column_output column =
     written column @ bytes_at (buffer column) 0 (buffer_position column)"

section \<open>Naming and creating a column\<close>

text \<open>\<^verbatim>\<open>sprintf(id_buffer, "%03zu", id)\<close>: decimal, padded with zeros to three characters.\<close>

definition digit_char :: "nat \<Rightarrow> char" where
  "digit_char d = ''0123456789'' ! d"

function decimal :: "nat \<Rightarrow> string" where
  "decimal n = (if n < 10 then [digit_char n] else decimal (n div 10) @ [digit_char (n mod 10)])"
  by pat_completeness auto
termination
  by (relation "measure id") auto

declare decimal.simps [simp del]

definition sprintf_03zu :: "nat \<Rightarrow> string" where
  "sprintf_03zu n = replicate (3 - length (decimal n)) CHR ''0'' @ decimal n"

text \<open>
  \<^verbatim>\<open>CREATE_COLUMN_INFO(info, fname, id)\<close>. The file is opened with \<^verbatim>\<open>O_TRUNC\<close>, so it starts
  empty; a failing \<^verbatim>\<open>open\<close> ends the process with \<^verbatim>\<open>exit(1)\<close>. The macro calls
  \<^verbatim>\<open>should_use_heap(BUFFER_SIZE)\<close>, where \<^verbatim>\<open>required_stack\<close> still is \<^verbatim>\<open>BUFFER_SIZE + 10\<close>.
\<close>

definition CREATE_COLUMN_INFO :: "environment \<Rightarrow> string \<Rightarrow> nat \<Rightarrow> error + ColumnInfo" where
  "CREATE_COLUMN_INFO env fname ident =
     (if can_create env (fname @ sprintf_03zu ident @ ''.csv'') then
        Inr \<lparr>output_fd = fname @ sprintf_03zu ident @ ''.csv'',
             written = [],
             buffer = fresh_column_buffer env ident,
             buffer_size = BUFFER_SIZE,
             buffer_position = 0,
             on_heap = should_use_heap env (BUFFER_SIZE + 10)\<rparr>
      else Inl OpenFailed)"

section \<open>The state of \<^verbatim>\<open>split_csv\<close>\<close>

datatype CSVState =
    OnRowInitial
  | OnColumnInitial
  | InSimpleColumn
  | InQuotedStringColumn
  | InQuotedStringColumnOnQuote

text \<open>
  The local variables of \<^verbatim>\<open>split_csv\<close>. \<open>heap_blocks\<close> counts the buffers obtained from
  \<^verbatim>\<open>malloc\<close> and not yet given to \<^verbatim>\<open>free\<close>. \<open>next_newline\<close> is declared without a value;
  the first chunk assigns it before anything reads it.
\<close>

record splitter =
  input_buffer :: memory
  input_buffer_on_heap :: bool
  NEWLINE_SENTINEL :: nat
  COMMA_SENTINEL :: nat
  DQUOTE_SENTINEL :: nat
  next_newline :: nat
  column_infos :: "ColumnInfo list"
  current_row :: nat
  current_column :: nat
  current_state :: CSVState
  previous_ptr :: nat
  heap_blocks :: nat

text \<open>
  An operation on \<^verbatim>\<open>column_infos[i]\<close>. Indexing the vector out of range is undefined
  behaviour; an operation that does not return makes the run diverge.
\<close>

definition with_column ::
  "splitter \<Rightarrow> nat \<Rightarrow> (ColumnInfo \<Rightarrow> ColumnInfo option) \<Rightarrow> error + splitter" where
  "with_column st i f =
     (if i < length (column_infos st) then
        (case f (column_infos st ! i) of
           None \<Rightarrow> Inl Diverges
         | Some column \<Rightarrow> Inr (st\<lparr>column_infos := (column_infos st)[i := column]\<rparr>))
      else Inl MemoryFault)"

text \<open>
  \<^verbatim>\<open>CHECK_AND_CREATE_COLUMN\<close>: the vector grows by one, the new column is created with the
  vector's new size as its id, and it is padded with \<open>current_row\<close> newlines.
\<close>

definition CHECK_AND_CREATE_COLUMN :: "environment \<Rightarrow> string \<Rightarrow> splitter \<Rightarrow> error + splitter" where
  "CHECK_AND_CREATE_COLUMN env name st =
     (if current_column st = length (column_infos st) then
        (case CREATE_COLUMN_INFO env name (length (column_infos st) + 1) of
           Inl e \<Rightarrow> Inl e
         | Inr info \<Rightarrow>
             (case add_chars_to_column info NEWLINE (current_row st) of
                None \<Rightarrow> Inl Diverges
              | Some info' \<Rightarrow>
                  Inr (st\<lparr>column_infos := column_infos st @ [info'],
                          heap_blocks := heap_blocks st + (if on_heap info' then 1 else 0)\<rparr>)))
      else Inr st)"

text \<open>
  The step written four times in the source: find the next newline from \<open>p\<close> on and, unless it
  is the sentinel, overwrite it with a comma.
\<close>

definition mark_next_newline :: "splitter \<Rightarrow> nat \<Rightarrow> error + splitter" where
  "mark_next_newline st p =
     (case rawmemchr (input_buffer st) p NEWLINE of
        None \<Rightarrow> Inl MemoryFault
      | Some n \<Rightarrow>
          Inr (st\<lparr>next_newline := n,
                  input_buffer := (if n \<noteq> NEWLINE_SENTINEL st
                                   then (input_buffer st)(n := COMMA)
                                   else input_buffer st)\<rparr>))"

text \<open>
  Copying \<open>[previous_ptr, stop)\<close> of the input buffer to the current column. A negative
  \<^verbatim>\<open>std::distance\<close> becomes a huge \<^verbatim>\<open>size_t\<close> and the copy leaves the buffer.
\<close>

definition copy_to_column :: "splitter \<Rightarrow> nat \<Rightarrow> error + splitter" where
  "copy_to_column st stop =
     (if stop < previous_ptr st then Inl MemoryFault
      else with_column st (current_column st)
             (\<lambda>column. add_buffer_to_column column (input_buffer st) (previous_ptr st)
                          (stop - previous_ptr st)))"

text \<open>\<^verbatim>\<open>add_chars_to_column(column_infos[current_column++], '\n', 1)\<close>.\<close>

definition terminate_column :: "splitter \<Rightarrow> error + splitter" where
  "terminate_column st =
     (case with_column st (current_column st) (\<lambda>column. add_chars_to_column column NEWLINE 1) of
        Inl e \<Rightarrow> Inl e
      | Inr st' \<Rightarrow> Inr (st'\<lparr>current_column := current_column st' + 1\<rparr>))"

section \<open>The state machine\<close>

text \<open>Where control goes after a case of the \<^verbatim>\<open>switch\<close>: one of the two labels.\<close>

datatype flow = state_begin splitter | read_chunk splitter

text \<open>\<^verbatim>\<open>case OnRowInitial\<close>: the loop that pads the columns the row did not reach.\<close>

function pad_columns :: "splitter \<Rightarrow> error + splitter" where
  "pad_columns st =
     (if current_column st \<noteq> length (column_infos st) then
        (case terminate_column st of
           Inl e \<Rightarrow> Inl e
         | Inr st' \<Rightarrow> pad_columns st')
      else Inr st)"
  by pat_completeness auto
termination
proof (relation "measure (\<lambda>st. length (column_infos st) - current_column st)")
  show "wf (measure (\<lambda>st. length (column_infos st) - current_column st))"
    by simp
next
  fix st st'
  assume "current_column st \<noteq> length (column_infos st)"
    and "terminate_column st = Inr st'"
  then show "(st', st) \<in> measure (\<lambda>st. length (column_infos st) - current_column st)"
    by (auto simp: terminate_column_def with_column_def
             split: if_splits sum.splits option.splits)
qed

declare pad_columns.simps [simp del]

text \<open>
  \<^verbatim>\<open>case OnColumnInitial\<close>. Every branch that does not fail goes to \<^verbatim>\<open>state_begin\<close>.
\<close>

definition on_column_initial :: "environment \<Rightarrow> string \<Rightarrow> splitter \<Rightarrow> error + splitter" where
  "on_column_initial env name st =
     (if INPUT_ALLOC \<le> previous_ptr st then Inl MemoryFault
      else if input_buffer st (previous_ptr st) = DQUOTE then
        (case CHECK_AND_CREATE_COLUMN env name st of
           Inl e \<Rightarrow> Inl e
         | Inr st1 \<Rightarrow>
             (case with_column st1 (current_column st1)
                     (\<lambda>column. add_chars_to_column column DQUOTE 1) of
                Inl e \<Rightarrow> Inl e
              | Inr st2 \<Rightarrow>
                  Inr (st2\<lparr>previous_ptr := previous_ptr st2 + 1,
                           current_state := InQuotedStringColumn\<rparr>)))
      else if input_buffer st (previous_ptr st) = COMMA then
        (case CHECK_AND_CREATE_COLUMN env name st of
           Inl e \<Rightarrow> Inl e
         | Inr st1 \<Rightarrow>
             if previous_ptr st1 = next_newline st1 then
               Inr (st1\<lparr>previous_ptr := previous_ptr st1 + 1,
                        current_state := OnRowInitial\<rparr>)
             else
               (case terminate_column st1 of
                  Inl e \<Rightarrow> Inl e
                | Inr st2 \<Rightarrow>
                    Inr (st2\<lparr>previous_ptr := previous_ptr st2 + 1,
                             current_state := OnColumnInitial\<rparr>)))
      else if input_buffer st (previous_ptr st) = NEWLINE then Inl AssertionFailed
      else
        (case CHECK_AND_CREATE_COLUMN env name st of
           Inl e \<Rightarrow> Inl e
         | Inr st1 \<Rightarrow> Inr (st1\<lparr>current_state := InSimpleColumn\<rparr>)))"

text \<open>\<^verbatim>\<open>case OnRowInitial\<close>, which falls through to \<^verbatim>\<open>case OnColumnInitial\<close>.\<close>

definition on_row_initial :: "environment \<Rightarrow> string \<Rightarrow> splitter \<Rightarrow> error + splitter" where
  "on_row_initial env name st =
     (case pad_columns st of
        Inl e \<Rightarrow> Inl e
      | Inr st1 \<Rightarrow>
          (case mark_next_newline
                  (st1\<lparr>current_column := 0, current_row := current_row st1 + 1\<rparr>)
                  (previous_ptr st1) of
             Inl e \<Rightarrow> Inl e
           | Inr st2 \<Rightarrow> on_column_initial env name st2))"

text \<open>\<^verbatim>\<open>case InSimpleColumn\<close>.\<close>

definition in_simple_column :: "splitter \<Rightarrow> error + flow" where
  "in_simple_column st =
     (case rawmemchr (input_buffer st) (previous_ptr st) COMMA of
        None \<Rightarrow> Inl MemoryFault
      | Some next_column \<Rightarrow>
          if next_column = COMMA_SENTINEL st then
            (case copy_to_column st BUFFER_SIZE of
               Inl e \<Rightarrow> Inl e
             | Inr st1 \<Rightarrow> Inr (read_chunk (st1\<lparr>current_state := InSimpleColumn\<rparr>)))
          else if next_column = next_newline st then
            (case copy_to_column st next_column of
               Inl e \<Rightarrow> Inl e
             | Inr st1 \<Rightarrow>
                 (case terminate_column st1 of
                    Inl e \<Rightarrow> Inl e
                  | Inr st2 \<Rightarrow>
                      Inr (state_begin (st2\<lparr>previous_ptr := next_column + 1,
                                             current_state := OnRowInitial\<rparr>))))
          else
            (case copy_to_column st next_column of
               Inl e \<Rightarrow> Inl e
             | Inr st1 \<Rightarrow>
                 (case terminate_column st1 of
                    Inl e \<Rightarrow> Inl e
                  | Inr st2 \<Rightarrow>
                      Inr (state_begin (st2\<lparr>previous_ptr := next_column + 1,
                                             current_state := OnColumnInitial\<rparr>)))))"

lemma rawmemchr_Some:
  "rawmemchr m p c = Some q \<Longrightarrow> p \<le> q \<and> q < INPUT_ALLOC \<and> m q = c"
proof (induction m p c rule: rawmemchr.induct)
  case (1 m p c)
  show ?case
  proof (cases "INPUT_ALLOC \<le> p")
    case True
    with "1.prems" show ?thesis by (simp add: rawmemchr.simps [of m p c])
  next
    case False
    show ?thesis
    proof (cases "m p = c")
      case True
      with False "1.prems" show ?thesis by (simp add: rawmemchr.simps [of m p c])
    next
      case neq: False
      with False "1.prems" have "rawmemchr m (p + 1) c = Some q"
        by (simp add: rawmemchr.simps [of m p c])
      with "1.IH" [OF False neq] show ?thesis by simp
    qed
  qed
qed

text \<open>
  The scan of a quoted field when the quote found after \<open>next_newline\<close>: the newline is put
  back, and looked for again if the quote lies inside the buffer.
\<close>

definition revert_newline :: "splitter \<Rightarrow> nat \<Rightarrow> error + splitter" where
  "revert_newline st next_ptr =
     (if next_ptr > next_newline st then
        (if next_ptr < BUFFER_SIZE then
           mark_next_newline
             (st\<lparr>input_buffer := (input_buffer st)(next_newline st := NEWLINE)\<rparr>) next_ptr
         else Inr (st\<lparr>input_buffer := (input_buffer st)(next_newline st := NEWLINE)\<rparr>))
      else Inr st)"

text \<open>
  \<^verbatim>\<open>case InQuotedStringColumn\<close>: the inner \<^verbatim>\<open>while(true)\<close> loop, with \<open>last_read\<close> as
  its variable.
\<close>

function in_quoted_string_column :: "splitter \<Rightarrow> nat \<Rightarrow> error + flow" where
  "in_quoted_string_column st last_read =
     (case rawmemchr (input_buffer st) last_read DQUOTE of
        None \<Rightarrow> Inl MemoryFault
      | Some next_ptr \<Rightarrow>
          (case revert_newline st next_ptr of
             Inl e \<Rightarrow> Inl e
           | Inr st1 \<Rightarrow>
               if next_ptr = DQUOTE_SENTINEL st1 then
                 (case copy_to_column st1 BUFFER_SIZE of
                    Inl e \<Rightarrow> Inl e
                  | Inr st2 \<Rightarrow>
                      Inr (read_chunk (st2\<lparr>current_state := InQuotedStringColumn\<rparr>)))
               else if next_ptr = BUFFER_SIZE - 1 then
                 (case copy_to_column st1 BUFFER_SIZE of
                    Inl e \<Rightarrow> Inl e
                  | Inr st2 \<Rightarrow>
                      Inr (read_chunk (st2\<lparr>current_state := InQuotedStringColumnOnQuote\<rparr>)))
               else if INPUT_ALLOC \<le> next_ptr + 1 then Inl MemoryFault
               else if input_buffer st1 (next_ptr + 1) = DQUOTE then
                 in_quoted_string_column st1 (next_ptr + 2)
               else if input_buffer st1 (next_ptr + 1) = COMMA then
                 (case copy_to_column st1 (next_ptr + 1) of
                    Inl e \<Rightarrow> Inl e
                  | Inr st2 \<Rightarrow>
                      (case terminate_column st2 of
                         Inl e \<Rightarrow> Inl e
                       | Inr st3 \<Rightarrow>
                           if next_ptr + 1 = next_newline st3 then
                             (case mark_next_newline (st3\<lparr>previous_ptr := next_ptr + 2\<rparr>)
                                     (next_newline st3 + 1) of
                                Inl e \<Rightarrow> Inl e
                              | Inr st4 \<Rightarrow>
                                  Inr (state_begin (st4\<lparr>current_state := OnRowInitial\<rparr>)))
                           else
                             Inr (state_begin (st3\<lparr>previous_ptr := next_ptr + 2,
                                                    current_state := OnColumnInitial\<rparr>))))
               else
                 (case copy_to_column st1 (next_ptr + 1) of
                    Inl e \<Rightarrow> Inl e
                  | Inr st2 \<Rightarrow>
                      Inr (state_begin (st2\<lparr>previous_ptr := next_ptr + 1,
                                             current_state := InSimpleColumn\<rparr>)))))"
  by pat_completeness auto
termination
proof (relation "measure (\<lambda>(st, last_read). INPUT_ALLOC + 1 - last_read)")
  show "wf (measure (\<lambda>(st, last_read). INPUT_ALLOC + 1 - last_read))"
    by simp
next
  fix st :: splitter and last_read next_ptr :: nat and st1 :: splitter
  assume "rawmemchr (input_buffer st) last_read DQUOTE = Some next_ptr"
  then have "last_read \<le> next_ptr" and "next_ptr < INPUT_ALLOC"
    using rawmemchr_Some by blast+
  then show "((st1, next_ptr + 2), (st, last_read))
               \<in> measure (\<lambda>(st, last_read). INPUT_ALLOC + 1 - last_read)"
    by simp
qed

declare in_quoted_string_column.simps [simp del]

text \<open>
  One pass from the label \<^verbatim>\<open>state_begin\<close> through the \<^verbatim>\<open>switch\<close>. The case
  \<^verbatim>\<open>InQuotedStringColumnOnQuote\<close> begins with \<^verbatim>\<open>assert(false)\<close>; the Makefile never defines
  \<^verbatim>\<open>NDEBUG\<close>, so the assertion is compiled in and nothing after it runs.
\<close>

definition step :: "environment \<Rightarrow> string \<Rightarrow> splitter \<Rightarrow> error + flow" where
  "step env name st =
     (if previous_ptr st = NEWLINE_SENTINEL st then Inr (read_chunk st)
      else
        (case current_state st of
           OnRowInitial \<Rightarrow> map_sum id state_begin (on_row_initial env name st)
         | OnColumnInitial \<Rightarrow> map_sum id state_begin (on_column_initial env name st)
         | InSimpleColumn \<Rightarrow> in_simple_column st
         | InQuotedStringColumnOnQuote \<Rightarrow> Inl AssertionFailed
         | InQuotedStringColumn \<Rightarrow> in_quoted_string_column st (previous_ptr st)))"

text \<open>
  What each operation leaves alone. These facts give the termination of the loop over one
  chunk: every pass through the \<^verbatim>\<open>switch\<close> either moves \<open>previous_ptr\<close> forward inside the
  allocation or enters \<^verbatim>\<open>InSimpleColumn\<close> at the same position.
\<close>

lemma with_column_frame:
  "with_column st i f = Inr st' \<Longrightarrow>
     previous_ptr st' = previous_ptr st \<and> current_state st' = current_state st
     \<and> input_buffer st' = input_buffer st \<and> next_newline st' = next_newline st
     \<and> current_column st' = current_column st \<and> current_row st' = current_row st
     \<and> NEWLINE_SENTINEL st' = NEWLINE_SENTINEL st \<and> COMMA_SENTINEL st' = COMMA_SENTINEL st
     \<and> DQUOTE_SENTINEL st' = DQUOTE_SENTINEL st
     \<and> heap_blocks st' = heap_blocks st \<and> input_buffer_on_heap st' = input_buffer_on_heap st
     \<and> length (column_infos st') = length (column_infos st) \<and> i < length (column_infos st)"
  by (auto simp: with_column_def split: if_splits option.splits)

lemma copy_to_column_frame:
  "copy_to_column st stop = Inr st' \<Longrightarrow>
     previous_ptr st' = previous_ptr st \<and> current_state st' = current_state st
     \<and> input_buffer st' = input_buffer st \<and> next_newline st' = next_newline st
     \<and> current_column st' = current_column st \<and> current_row st' = current_row st
     \<and> NEWLINE_SENTINEL st' = NEWLINE_SENTINEL st \<and> COMMA_SENTINEL st' = COMMA_SENTINEL st
     \<and> DQUOTE_SENTINEL st' = DQUOTE_SENTINEL st
     \<and> heap_blocks st' = heap_blocks st \<and> input_buffer_on_heap st' = input_buffer_on_heap st
     \<and> length (column_infos st') = length (column_infos st)
     \<and> current_column st < length (column_infos st) \<and> previous_ptr st \<le> stop"
  by (auto simp: copy_to_column_def split: if_splits dest: with_column_frame)

lemma terminate_column_frame:
  "terminate_column st = Inr st' \<Longrightarrow>
     previous_ptr st' = previous_ptr st \<and> current_state st' = current_state st
     \<and> input_buffer st' = input_buffer st \<and> next_newline st' = next_newline st
     \<and> current_column st' = current_column st + 1 \<and> current_row st' = current_row st
     \<and> NEWLINE_SENTINEL st' = NEWLINE_SENTINEL st \<and> COMMA_SENTINEL st' = COMMA_SENTINEL st
     \<and> DQUOTE_SENTINEL st' = DQUOTE_SENTINEL st
     \<and> heap_blocks st' = heap_blocks st \<and> input_buffer_on_heap st' = input_buffer_on_heap st
     \<and> length (column_infos st') = length (column_infos st)
     \<and> current_column st < length (column_infos st)"
  by (auto simp: terminate_column_def split: sum.splits dest: with_column_frame)

lemma mark_next_newline_frame:
  "mark_next_newline st p = Inr st' \<Longrightarrow>
     previous_ptr st' = previous_ptr st \<and> current_state st' = current_state st
     \<and> current_column st' = current_column st \<and> current_row st' = current_row st
     \<and> NEWLINE_SENTINEL st' = NEWLINE_SENTINEL st \<and> COMMA_SENTINEL st' = COMMA_SENTINEL st
     \<and> DQUOTE_SENTINEL st' = DQUOTE_SENTINEL st
     \<and> heap_blocks st' = heap_blocks st \<and> input_buffer_on_heap st' = input_buffer_on_heap st
     \<and> column_infos st' = column_infos st
     \<and> p \<le> next_newline st' \<and> next_newline st' < INPUT_ALLOC"
  by (auto simp: mark_next_newline_def split: option.splits dest: rawmemchr_Some)

lemma CHECK_AND_CREATE_COLUMN_frame:
  "CHECK_AND_CREATE_COLUMN env name st = Inr st' \<Longrightarrow>
     previous_ptr st' = previous_ptr st \<and> current_state st' = current_state st
     \<and> input_buffer st' = input_buffer st \<and> next_newline st' = next_newline st
     \<and> current_column st' = current_column st \<and> current_row st' = current_row st
     \<and> NEWLINE_SENTINEL st' = NEWLINE_SENTINEL st \<and> COMMA_SENTINEL st' = COMMA_SENTINEL st
     \<and> DQUOTE_SENTINEL st' = DQUOTE_SENTINEL st
     \<and> input_buffer_on_heap st' = input_buffer_on_heap st"
  by (auto simp: CHECK_AND_CREATE_COLUMN_def split: if_splits sum.splits option.splits)

lemma pad_columns_frame:
  "pad_columns st = Inr st' \<Longrightarrow>
     previous_ptr st' = previous_ptr st \<and> current_state st' = current_state st
     \<and> input_buffer st' = input_buffer st \<and> next_newline st' = next_newline st
     \<and> current_row st' = current_row st
     \<and> NEWLINE_SENTINEL st' = NEWLINE_SENTINEL st \<and> COMMA_SENTINEL st' = COMMA_SENTINEL st
     \<and> DQUOTE_SENTINEL st' = DQUOTE_SENTINEL st
     \<and> heap_blocks st' = heap_blocks st \<and> input_buffer_on_heap st' = input_buffer_on_heap st
     \<and> length (column_infos st') = length (column_infos st)"
proof (induction st rule: pad_columns.induct)
  case (1 st)
  show ?case
  proof (cases "current_column st \<noteq> length (column_infos st)")
    case False
    with "1.prems" show ?thesis by (simp add: pad_columns.simps [of st])
  next
    case True
    with "1.prems" obtain st1 where t: "terminate_column st = Inr st1"
      and p: "pad_columns st1 = Inr st'"
      by (auto simp: pad_columns.simps [of st] split: sum.splits)
    from "1.IH" [OF True t p] terminate_column_frame [OF t] show ?thesis by simp
  qed
qed


lemma on_column_initial_progress:
  "on_column_initial env name st = Inr st' \<Longrightarrow>
     previous_ptr st < INPUT_ALLOC \<and>
     (previous_ptr st' = previous_ptr st + 1
      \<or> previous_ptr st' = previous_ptr st \<and> current_state st' = InSimpleColumn)"
  by (auto simp: on_column_initial_def split: if_splits sum.splits
           dest!: CHECK_AND_CREATE_COLUMN_frame with_column_frame terminate_column_frame)

lemma on_row_initial_progress:
  "on_row_initial env name st = Inr st' \<Longrightarrow>
     previous_ptr st < INPUT_ALLOC \<and>
     (previous_ptr st' = previous_ptr st + 1
      \<or> previous_ptr st' = previous_ptr st \<and> current_state st' = InSimpleColumn)"
  by (auto simp: on_row_initial_def split: sum.splits
           dest!: pad_columns_frame mark_next_newline_frame on_column_initial_progress)

lemma in_simple_column_progress:
  "in_simple_column st = Inr (state_begin st') \<Longrightarrow>
     previous_ptr st < previous_ptr st' \<and> previous_ptr st' \<le> INPUT_ALLOC"
  by (auto simp: in_simple_column_def split: option.splits if_splits sum.splits
           dest!: rawmemchr_Some copy_to_column_frame terminate_column_frame)

lemma revert_newline_frame:
  "revert_newline st p = Inr st' \<Longrightarrow>
     previous_ptr st' = previous_ptr st \<and> current_state st' = current_state st
     \<and> current_column st' = current_column st \<and> current_row st' = current_row st
     \<and> NEWLINE_SENTINEL st' = NEWLINE_SENTINEL st \<and> COMMA_SENTINEL st' = COMMA_SENTINEL st
     \<and> DQUOTE_SENTINEL st' = DQUOTE_SENTINEL st
     \<and> heap_blocks st' = heap_blocks st \<and> input_buffer_on_heap st' = input_buffer_on_heap st
     \<and> column_infos st' = column_infos st"
  by (auto simp: revert_newline_def split: if_splits dest!: mark_next_newline_frame)

lemma in_quoted_string_column_progress:
  "in_quoted_string_column st last_read = Inr (state_begin st') \<Longrightarrow>
   previous_ptr st \<le> last_read \<Longrightarrow>
     previous_ptr st < previous_ptr st' \<and> previous_ptr st' \<le> INPUT_ALLOC + 1"
proof (induction st last_read rule: in_quoted_string_column.induct)
  case (1 st last_read)
  from "1.prems"(1) obtain next_ptr st1 where
    r: "rawmemchr (input_buffer st) last_read DQUOTE = Some next_ptr"
    and v: "revert_newline st next_ptr = Inr st1"
    by (auto simp: in_quoted_string_column.simps [of st last_read]
             split: option.splits sum.splits)
  from rawmemchr_Some [OF r] have b: "last_read \<le> next_ptr" "next_ptr < INPUT_ALLOC"
    by simp_all
  from revert_newline_frame [OF v] have p1: "previous_ptr st1 = previous_ptr st"
    by simp
  show ?case
  proof (cases "next_ptr \<noteq> DQUOTE_SENTINEL st1 \<and> next_ptr \<noteq> BUFFER_SIZE - 1
                 \<and> \<not> INPUT_ALLOC \<le> next_ptr + 1
                 \<and> input_buffer st1 (next_ptr + 1) = DQUOTE")
    case True
    with "1.prems"(1) r v have
      "in_quoted_string_column st1 (next_ptr + 2) = Inr (state_begin st')"
      by (simp add: in_quoted_string_column.simps [of st last_read])
    moreover have "previous_ptr st1 \<le> next_ptr + 2"
      using p1 b "1.prems"(2) by simp
    ultimately have "previous_ptr st1 < previous_ptr st' \<and> previous_ptr st' \<le> INPUT_ALLOC + 1"
      using "1.IH" [OF r v] True by simp
    with p1 show ?thesis by simp
  next
    case False
    with "1.prems" r v b p1 show ?thesis
      by (auto simp: in_quoted_string_column.simps [of st last_read]
               split: if_splits sum.splits
               dest!: copy_to_column_frame terminate_column_frame mark_next_newline_frame)
  qed
qed

definition chunk_measure :: "splitter \<Rightarrow> nat" where
  "chunk_measure st =
     2 * (INPUT_ALLOC + 1 - previous_ptr st)
       + (if current_state st = InSimpleColumn then 0 else 1)"

lemma map_sum_state_begin:
  "map_sum id state_begin x = Inr (state_begin st') \<longleftrightarrow> x = Inr st'"
  by (cases x) auto

lemma step_progress:
  assumes "step env name st = Inr (state_begin st')"
  shows "chunk_measure st' < chunk_measure st"
proof (cases "current_state st")
  case OnRowInitial
  with assms have "on_row_initial env name st = Inr st'"
    by (auto simp: step_def map_sum_state_begin split: if_splits)
  from on_row_initial_progress [OF this] OnRowInitial show ?thesis
    by (auto simp: chunk_measure_def)
next
  case OnColumnInitial
  with assms have "on_column_initial env name st = Inr st'"
    by (auto simp: step_def map_sum_state_begin split: if_splits)
  from on_column_initial_progress [OF this] OnColumnInitial show ?thesis
    by (auto simp: chunk_measure_def)
next
  case InSimpleColumn
  with assms have "in_simple_column st = Inr (state_begin st')"
    by (auto simp: step_def split: if_splits)
  from in_simple_column_progress [OF this] show ?thesis
    by (auto simp: chunk_measure_def)
next
  case InQuotedStringColumn
  with assms have "in_quoted_string_column st (previous_ptr st) = Inr (state_begin st')"
    by (auto simp: step_def split: if_splits)
  from in_quoted_string_column_progress [OF this] show ?thesis
    by (auto simp: chunk_measure_def)
next
  case InQuotedStringColumnOnQuote
  with assms show ?thesis
    by (auto simp: step_def split: if_splits)
qed

text \<open>
  The inner \<^verbatim>\<open>while(true)\<close>: passes through the \<^verbatim>\<open>switch\<close> until one of them jumps to
  \<^verbatim>\<open>read_chunk\<close>.
\<close>

function process_chunk :: "environment \<Rightarrow> string \<Rightarrow> splitter \<Rightarrow> error + splitter" where
  "process_chunk env name st =
     (case step env name st of
        Inl e \<Rightarrow> Inl e
      | Inr (read_chunk st') \<Rightarrow> Inr st'
      | Inr (state_begin st') \<Rightarrow> process_chunk env name st')"
  by pat_completeness auto
termination
proof (relation "measure (\<lambda>(env, name, st). chunk_measure st)")
  show "wf (measure (\<lambda>(env, name, st). chunk_measure st))"
    by simp
next
  fix env name st x st'
  assume "step env name st = Inr x" and "x = state_begin st'"
  then show "((env, name, st'), (env, name, st)) \<in> measure (\<lambda>(env, name, st). chunk_measure st)"
    using step_progress by simp
qed

declare process_chunk.simps [simp del]


section \<open>Reading the input\<close>

text \<open>What \<^verbatim>\<open>read\<close> leaves in the buffer when it returns the bytes \<open>bs\<close>.\<close>

definition read_into :: "memory \<Rightarrow> byte list \<Rightarrow> memory" where
  "read_into m bs = (\<lambda>i. if i < length bs then bs ! i else m i)"

text \<open>
  The branch of a successful read, up to the inner loop: a chunk that is not of full size
  moves the three sentinels behind its last byte, \<open>previous_ptr\<close> starts at the buffer, and
  unless the state is \<^verbatim>\<open>OnRowInitial\<close> the next newline is marked.
\<close>

definition receive_chunk :: "splitter \<Rightarrow> byte list \<Rightarrow> error + splitter" where
  "receive_chunk st bs =
     (let bytes_total = length bs;
          st1 = st\<lparr>input_buffer := read_into (input_buffer st) bs\<rparr>;
          st2 = (if bytes_total \<noteq> BUFFER_SIZE then
                   st1\<lparr>input_buffer := (input_buffer st1)
                          (bytes_total := NEWLINE,
                           bytes_total + 1 := COMMA,
                           bytes_total + 2 := DQUOTE),
                       NEWLINE_SENTINEL := bytes_total,
                       COMMA_SENTINEL := bytes_total + 1,
                       DQUOTE_SENTINEL := bytes_total + 2\<rparr>
                 else st1);
          st3 = st2\<lparr>previous_ptr := 0\<rparr>
      in if current_state st3 \<noteq> OnRowInitial then mark_next_newline st3 0 else Inr st3)"

text \<open>
  The branch of a read that returns 0: every column is flushed and the buffers that came
  from \<^verbatim>\<open>malloc\<close> are freed.
\<close>

definition end_of_stream :: "splitter \<Rightarrow> splitter" where
  "end_of_stream st =
     st\<lparr>column_infos := map flush_buffer (column_infos st),
        heap_blocks := heap_blocks st - length (filter on_heap (column_infos st))
                         - (if input_buffer_on_heap st then 1 else 0)\<rparr>"

text \<open>
  The outer \<^verbatim>\<open>while(true)\<close>, over the results of the successive reads. A read of -1 ends the
  process with \<^verbatim>\<open>exit(1)\<close>.
\<close>

fun read_loop :: "environment \<Rightarrow> string \<Rightarrow> splitter \<Rightarrow> read_result list \<Rightarrow> error + splitter" where
  "read_loop env name st [] = Inr (end_of_stream st)"
| "read_loop env name st (ReadError # rest) = Inl ReadFailed"
| "read_loop env name st (Bytes bs # rest) =
     (if bs = [] then Inr (end_of_stream st)
      else
        (case receive_chunk st bs of
           Inl e \<Rightarrow> Inl e
         | Inr st1 \<Rightarrow>
             (case process_chunk env name st1 of
                Inl e \<Rightarrow> Inl e
              | Inr st2 \<Rightarrow> read_loop env name st2 rest)))"

definition initial_splitter :: "environment \<Rightarrow> splitter" where
  "initial_splitter env =
     \<lparr>input_buffer = (fresh_input_buffer env)
                       (BUFFER_SIZE := NEWLINE,
                        BUFFER_SIZE + 1 := COMMA,
                        BUFFER_SIZE + 2 := DQUOTE),
      input_buffer_on_heap = should_use_heap env (BUFFER_SIZE + 10),
      NEWLINE_SENTINEL = BUFFER_SIZE,
      COMMA_SENTINEL = BUFFER_SIZE + 1,
      DQUOTE_SENTINEL = BUFFER_SIZE + 2,
      next_newline = 0,
      column_infos = [],
      current_row = 0,
      current_column = 0,
      current_state = OnColumnInitial,
      previous_ptr = 0,
      heap_blocks = (if should_use_heap env (BUFFER_SIZE + 10) then 1 else 0)\<rparr>"

text \<open>
  What a run of \<^verbatim>\<open>split_csv\<close> that returns leaves behind: the column files in the order of
  their creation, each with its path and contents, and the number of heap buffers not freed.
\<close>

record outcome =
  files :: "(string \<times> byte list) list"
  unfreed_blocks :: nat

definition split_csv :: "environment \<Rightarrow> string \<Rightarrow> read_result list \<Rightarrow> error + outcome" where
  "split_csv env name reads =
     (case read_loop env name (initial_splitter env) reads of
        Inl e \<Rightarrow> Inl e
      | Inr st \<Rightarrow>
          Inr \<lparr>files = map (\<lambda>column. (output_fd column, written column)) (column_infos st),
               unfreed_blocks = heap_blocks st\<rparr>)"

text \<open>
  The points of \<^verbatim>\<open>split_csv\<close> between which the model moves: the labels \<^verbatim>\<open>read_chunk\<close> and
  \<^verbatim>\<open>state_begin\<close>, and the end of the function. \<open>reaches env name l st\<close> says that some run
  with this environment and prefix arrives at \<open>l\<close> with the local variables \<open>st\<close>, whatever
  the reads return and whether the run goes on to return, to exit or to abort. A run starts
  at \<^verbatim>\<open>read_chunk\<close>; from there a read of some bytes leads to \<^verbatim>\<open>state_begin\<close> and a read of
  0 to the end; from \<^verbatim>\<open>state_begin\<close> a pass through the \<^verbatim>\<open>switch\<close> that does not fail
  leads to the label it jumps to.
\<close>

datatype label = at_read_chunk | at_state_begin | at_return

inductive reaches :: "environment \<Rightarrow> string \<Rightarrow> label \<Rightarrow> splitter \<Rightarrow> bool"
  for env :: environment and name :: string where
  start: "reaches env name at_read_chunk (initial_splitter env)"
| receive: "reaches env name at_read_chunk st \<Longrightarrow> bs \<noteq> [] \<Longrightarrow> receive_chunk st bs = Inr st' \<Longrightarrow>
     reaches env name at_state_begin st'"
| pass: "reaches env name at_state_begin st \<Longrightarrow> step env name st = Inr (state_begin st') \<Longrightarrow>
     reaches env name at_state_begin st'"
| chunk_end: "reaches env name at_state_begin st \<Longrightarrow> step env name st = Inr (read_chunk st') \<Longrightarrow>
     reaches env name at_read_chunk st'"
| finish: "reaches env name at_read_chunk st \<Longrightarrow> reaches env name at_return (end_of_stream st)"

text \<open>The loops of the model move along these points.\<close>

lemma process_chunk_reaches:
  "process_chunk env name st = Inr st' \<Longrightarrow> reaches env name at_state_begin st \<Longrightarrow>
     reaches env name at_read_chunk st'"
proof (induction env name st rule: process_chunk.induct)
  case (1 env name st)
  from "1.prems"(1) obtain fl where s: "step env name st = Inr fl"
    by (auto simp: process_chunk.simps [of env name st] split: sum.splits)
  show ?case
  proof (cases fl)
    case (read_chunk st1)
    with s "1.prems"(1) have "st1 = st'"
      by (simp add: process_chunk.simps [of env name st])
    with s read_chunk "1.prems"(2) show ?thesis
      by (auto intro: reaches.chunk_end)
  next
    case (state_begin st1)
    with s "1.prems"(1) have "process_chunk env name st1 = Inr st'"
      by (simp add: process_chunk.simps [of env name st])
    moreover from s state_begin "1.prems"(2) have "reaches env name at_state_begin st1"
      by (auto intro: reaches.pass)
    ultimately show ?thesis
      using "1.IH" [OF s state_begin] by simp
  qed
qed

lemma read_loop_reaches:
  "read_loop env name st reads = Inr st' \<Longrightarrow> reaches env name at_read_chunk st \<Longrightarrow>
     reaches env name at_return st'"
proof (induction env name st reads rule: read_loop.induct)
  case (1 env name st)
  then show ?case by (auto intro: reaches.finish)
next
  case (2 env name st rest)
  then show ?case by simp
next
  case (3 env name st bs rest)
  show ?case
  proof (cases "bs = []")
    case True
    with "3.prems" show ?thesis by (auto intro: reaches.finish)
  next
    case False
    with "3.prems"(1) obtain st1 st2 where r: "receive_chunk st bs = Inr st1"
      and p: "process_chunk env name st1 = Inr st2"
      and l: "read_loop env name st2 rest = Inr st'"
      by (auto split: sum.splits)
    from reaches.receive [OF "3.prems"(2) False r]
    have "reaches env name at_read_chunk st2"
      by (rule process_chunk_reaches [OF p])
    with "3.IH" [OF False r p l] show ?thesis .
  qed
qed

lemma split_csv_reaches:
  assumes "split_csv env name reads = Inr out"
  shows "\<exists>st. reaches env name at_return st
            \<and> files out = map (\<lambda>column. (output_fd column, written column)) (column_infos st)"
proof -
  from assms obtain st where l: "read_loop env name (initial_splitter env) reads = Inr st"
    and out: "files out = map (\<lambda>column. (output_fd column, written column)) (column_infos st)"
    by (auto simp: split_csv_def split: sum.splits)
  from read_loop_reaches [OF l reaches.start] out show ?thesis by blast
qed

section \<open>\<^verbatim>\<open>main\<close>\<close>

text \<open>
  The loop over \<^verbatim>\<open>argv[1]\<close> .. \<^verbatim>\<open>argv[argc - 2]\<close>: \<open>None\<close> when it meets \<^verbatim>\<open>--help\<close>,
  else the prefix.
\<close>

fun process_arguments :: "string list \<Rightarrow> string \<Rightarrow> string option" where
  "process_arguments [] prefix = Some prefix"
| "process_arguments (arg # rest) prefix =
     (if arg = ''--help'' then None
      else if take 9 arg = ''--prefix='' then process_arguments rest (drop 9 arg)
      else process_arguments rest prefix)"

text \<open>
  How the process ends: \<open>exit_status\<close> is \<open>None\<close> when it does not exit by itself (abort,
  fault, no termination); \<open>split_result\<close> is \<open>None\<close> when \<^verbatim>\<open>split_csv\<close> was not called.
\<close>

record process =
  exit_status :: "nat option"
  usage_printed :: bool
  input_opened :: bool
  split_result :: "(error + outcome) option"

definition status_of :: "error + outcome \<Rightarrow> nat option" where
  "status_of r =
     (case r of
        Inr out \<Rightarrow> Some 0
      | Inl ReadFailed \<Rightarrow> Some 1
      | Inl OpenFailed \<Rightarrow> Some 1
      | Inl e \<Rightarrow> None)"

definition main :: "environment \<Rightarrow> string list \<Rightarrow> read_result list \<Rightarrow> process" where
  "main env argv reads =
     (if length argv = 1 then
        \<lparr>exit_status = Some 1, usage_printed = True, input_opened = False, split_result = None\<rparr>
      else if argv = [] then
        \<lparr>exit_status = None, usage_printed = False, input_opened = False, split_result = None\<rparr>
      else if last argv \<noteq> ''-'' \<and> \<not> can_open env (last argv) then
        \<lparr>exit_status = Some 1, usage_printed = False, input_opened = False, split_result = None\<rparr>
      else
        (case process_arguments (butlast (tl argv)) [] of
           None \<Rightarrow>
             \<lparr>exit_status = Some 0, usage_printed = True,
              input_opened = (last argv \<noteq> ''-''), split_result = None\<rparr>
         | Some prefix \<Rightarrow>
             \<lparr>exit_status = status_of (split_csv env prefix reads), usage_printed = False,
              input_opened = (last argv \<noteq> ''-''),
              split_result = Some (split_csv env prefix reads)\<rparr>))"

section \<open>Evaluating a run\<close>

text \<open>
  The equations that let the simplifier run the model on a concrete input. \<open>bytes_at\<close> is
  unfolded for short ranges only, so that a flush of a whole buffer stays one term.
\<close>

lemmas state_defs =
  split_csv_def initial_splitter_def receive_chunk_def end_of_stream_def
  step_def on_row_initial_def on_column_initial_def in_simple_column_def revert_newline_def
  CHECK_AND_CREATE_COLUMN_def CREATE_COLUMN_INFO_def with_column_def copy_to_column_def
  terminate_column_def mark_next_newline_def add_chars_to_column_def add_buffer_to_column_def
  flush_buffer_def memset_def memcpy_def
  BUFFER_SIZE_def INPUT_ALLOC_def Let_def

lemmas loop_simps =
  process_chunk.simps in_quoted_string_column.simps pad_columns.simps
  add_buffer_loop.simps flush_while.simps

lemmas model_defs = state_defs read_into_def

lemmas model_simps = loop_simps rawmemchr.simps

lemma bytes_at_small:
  "numeral k \<le> (64::nat) \<Longrightarrow>
     bytes_at m p (numeral k) = m p # bytes_at m (p + 1) (numeral k - 1)"
  by (simp add: numeral_eq_Suc)

lemma sprintf_03zu_1: "sprintf_03zu (Suc 0) = ''001''"
  by (simp add: sprintf_03zu_def decimal.simps digit_char_def numeral_eq_Suc)

lemma sprintf_03zu_2: "sprintf_03zu (Suc (Suc 0)) = ''002''"
  by (simp add: sprintf_03zu_def decimal.simps digit_char_def numeral_eq_Suc)

lemmas eval_simps = model_defs model_simps bytes_at_small sprintf_03zu_1 sprintf_03zu_2

text \<open>An environment for closed instances: every \<^verbatim>\<open>open\<close> succeeds, fresh memory is zeroed.\<close>

abbreviation (input) plain_environment :: environment where
  "plain_environment \<equiv>
     \<lparr>stack_limit = None, can_create = (\<lambda>path. True), can_open = (\<lambda>path. True),
      fresh_input_buffer = (\<lambda>i. CHR 0x00), fresh_column_buffer = (\<lambda>ident i. CHR 0x00)\<rparr>"

section \<open>Empty input (C10)\<close>

text \<open>The first \<^verbatim>\<open>read\<close> returns 0: there is no read result left, or the first one is empty.\<close>

definition first_read_empty :: "read_result list \<Rightarrow> bool" where
  "first_read_empty reads = (case reads of [] \<Rightarrow> True | r # rest \<Rightarrow> r = Bytes [])"

lemma split_csv_first_read_empty:
  "first_read_empty reads \<Longrightarrow>
     split_csv env name reads = Inr \<lparr>files = [], unfreed_blocks = 0\<rparr>"
  by (cases reads)
     (auto simp: first_read_empty_def split_csv_def initial_splitter_def end_of_stream_def)

lemma process_arguments_without_help:
  "''--help'' \<notin> set args \<Longrightarrow> \<exists>p. process_arguments args prefix = Some p"
  by (induction args arbitrary: prefix) auto

text \<open>
  Claim C10. When the very first read of the input returns zero bytes, the program creates
  no column file, frees what it allocated and ends with exit status 0. The program gets
  that far when it has an input argument that is \<^verbatim>\<open>-\<close> or can be opened and no \<^verbatim>\<open>--help\<close>
  among the options before it.
\<close>

theorem empty_input_clean_exit:
  assumes "2 \<le> length argv"
    and "last argv = ''-'' \<or> can_open env (last argv)"
    and "''--help'' \<notin> set (butlast (tl argv))"
    and "first_read_empty reads"
  shows "main env argv reads =
           \<lparr>exit_status = Some 0, usage_printed = False,
            input_opened = (last argv \<noteq> ''-''),
            split_result = Some (Inr \<lparr>files = [], unfreed_blocks = 0\<rparr>)\<rparr>"
proof -
  from assms(3) obtain p where p: "process_arguments (butlast (tl argv)) [] = Some p"
    using process_arguments_without_help by blast
  from assms(4) have "split_csv env p reads = Inr \<lparr>files = [], unfreed_blocks = 0\<rparr>"
    by (rule split_csv_first_read_empty)
  moreover from assms(1) have "length argv \<noteq> 1" and "argv \<noteq> []"
    by auto
  ultimately show ?thesis
    using assms(2) p by (auto simp: main_def status_of_def)
qed

theorem empty_input_clean_exit_witness:
  "main plain_environment [''./split_csv'', ''--prefix=col'', ''in.csv''] [] =
     \<lparr>exit_status = Some 0, usage_printed = False, input_opened = True,
      split_result = Some (Inr \<lparr>files = [], unfreed_blocks = 0\<rparr>)\<rparr>"
  using empty_input_clean_exit
          [of "[''./split_csv'', ''--prefix=col'', ''in.csv'']" plain_environment "[]"]
  by (simp add: first_read_empty_def)

section \<open>The help option (C9)\<close>

text \<open>
  Claim C9 says that every invocation whose arguments include \<^verbatim>\<open>--help\<close> prints the usage
  text, opens and reads no input and exits with status 0. \<^verbatim>\<open>main\<close> takes the last argument
  as the input path and opens it before it looks at any option, and its loop over the
  options stops before the last argument. So with \<^verbatim>\<open>--help\<close> before an input path that
  cannot be opened the process prints no usage and exits with status 1; when the path can be
  opened the usage is printed and the status is 0, but the input has been opened before.
  And \<^verbatim>\<open>./split_csv --help\<close> takes \<^verbatim>\<open>--help\<close> for the input path: when there is no such file
  the process exits with status 1, and when there is one it is split like any input.
\<close>

theorem help_after_opening_the_input:
  "main (env\<lparr>can_open := (\<lambda>path. False)\<rparr>) [''./split_csv'', ''--help'', ''in.csv''] reads =
     \<lparr>exit_status = Some 1, usage_printed = False, input_opened = False, split_result = None\<rparr>
   \<and> main (env\<lparr>can_open := (\<lambda>path. True)\<rparr>) [''./split_csv'', ''--help'', ''in.csv''] reads =
     \<lparr>exit_status = Some 0, usage_printed = True, input_opened = True, split_result = None\<rparr>
   \<and> main (env\<lparr>can_open := (\<lambda>path. False)\<rparr>) [''./split_csv'', ''--help''] reads =
     \<lparr>exit_status = Some 1, usage_printed = False, input_opened = False, split_result = None\<rparr>
   \<and> main (env\<lparr>can_open := (\<lambda>path. True)\<rparr>) [''./split_csv'', ''--help''] [] =
     \<lparr>exit_status = Some 0, usage_printed = False, input_opened = True,
      split_result = Some (Inr \<lparr>files = [], unfreed_blocks = 0\<rparr>)\<rparr>"
  by (simp add: main_def status_of_def split_csv_first_read_empty first_read_empty_def)

section \<open>Ragged rows (C4)\<close>

text \<open>
  Claim C4 says that after the record separator of every row each existing column has
  received one terminator for that row, so that line \<open>r\<close> of every column file belongs to row
  \<open>r\<close>. The columns a row did not reach are padded in \<^verbatim>\<open>case OnRowInitial\<close>, which runs when
  the first byte after the record separator is processed. After the last row there is no
  such byte: the input \<^verbatim>\<open>a,b\nc\n\<close> has two rows, and the file of the second column ends
  up with the single line \<^verbatim>\<open>b\<close>.
\<close>

theorem last_row_not_padded:
  "split_csv (env\<lparr>can_create := (\<lambda>path. True)\<rparr>) name
      [Bytes (''a,b'' @ [NEWLINE] @ ''c'' @ [NEWLINE])]
   = Inr \<lparr>files = [(name @ ''001.csv'', ''a'' @ [NEWLINE] @ ''c'' @ [NEWLINE]),
                    (name @ ''002.csv'', ''b'' @ [NEWLINE])],
          unfreed_blocks = 0\<rparr>"
  by (simp add: eval_simps)

text \<open>A row in the middle is padded: here the second of three rows.\<close>

lemma middle_row_padded:
  "split_csv (env\<lparr>can_create := (\<lambda>path. True)\<rparr>) name
      [Bytes (''a,b'' @ [NEWLINE] @ ''c'' @ [NEWLINE] @ ''d,e'' @ [NEWLINE])]
   = Inr \<lparr>files = [(name @ ''001.csv'', ''a'' @ [NEWLINE] @ ''c'' @ [NEWLINE] @ ''d'' @ [NEWLINE]),
                    (name @ ''002.csv'', ''b'' @ [NEWLINE] @ [NEWLINE] @ ''e'' @ [NEWLINE])],
          unfreed_blocks = 0\<rparr>"
  by (simp add: eval_simps)

section \<open>The number of columns (C5)\<close>

text \<open>
  The spec's measure: the number of fields of each row of an input. Fields are separated by
  commas and rows by newlines, where these stand outside a quoted field.
\<close>

fun spec_row_field_counts :: "bool \<Rightarrow> nat \<Rightarrow> byte list \<Rightarrow> nat list" where
  "spec_row_field_counts quoted n [] = (if n = 0 then [] else [n])"
| "spec_row_field_counts quoted n (c # cs) =
     (if c = DQUOTE then spec_row_field_counts (\<not> quoted) (max n 1) cs
      else if quoted then spec_row_field_counts quoted (max n 1) cs
      else if c = NEWLINE then max n 1 # spec_row_field_counts False 0 cs
      else if c = COMMA then spec_row_field_counts False (max n 1 + 1) cs
      else spec_row_field_counts False (max n 1) cs)"

text \<open>
  Claim C5 says that the number of column files equals the largest number of fields in a
  row. When a quoted field ends a row, the code looks for the next newline twice: once in
  \<^verbatim>\<open>case InQuotedStringColumn\<close> and once more in \<^verbatim>\<open>case OnRowInitial\<close>. The first search has
  turned the newline that ends the next row into a comma, so the second search finds the
  newline after it, and two rows are read as one. The comment before the inner loop of
  \<^verbatim>\<open>split_csv\<close> describes this very effect as the reason for a guard elsewhere. The input
  below has three rows of one field each and gets two column files.
\<close>

theorem two_columns_for_one_field_rows:
  "spec_row_field_counts False 0
      ([DQUOTE] @ ''a'' @ [DQUOTE, NEWLINE] @ ''b'' @ [NEWLINE] @ ''c'' @ [NEWLINE]) = [1, 1, 1]
   \<and> split_csv (env\<lparr>can_create := (\<lambda>path. True)\<rparr>) name
      [Bytes ([DQUOTE] @ ''a'' @ [DQUOTE, NEWLINE] @ ''b'' @ [NEWLINE] @ ''c'' @ [NEWLINE])]
   = Inr \<lparr>files = [(name @ ''001.csv'', [DQUOTE] @ ''a'' @ [DQUOTE, NEWLINE] @ ''b'' @ [NEWLINE]),
                    (name @ ''002.csv'', [NEWLINE] @ ''c'' @ [NEWLINE])],
          unfreed_blocks = 0\<rparr>"
  by (simp add: eval_simps)

section \<open>Filling a column with one byte (C2)\<close>

lemma length_bytes_at [simp]: "length (bytes_at m p n) = n"
  by (induction n arbitrary: p) simp_all

lemma nth_bytes_at: "i < n \<Longrightarrow> bytes_at m p n ! i = m (p + i)"
proof (induction n arbitrary: p i)
  case 0
  then show ?case by simp
next
  case (Suc n)
  then show ?case by (cases i) simp_all
qed

lemma bytes_at_append:
  "bytes_at m p (a + b) = bytes_at m p a @ bytes_at m (p + a) b"
  by (induction a arbitrary: p) simp_all

lemma bytes_at_eqI:
  "length xs = n \<Longrightarrow> (\<And>i. i < n \<Longrightarrow> m (p + i) = xs ! i) \<Longrightarrow> bytes_at m p n = xs"
  by (rule nth_equalityI) (simp_all add: nth_bytes_at)

lemma bytes_at_cong:
  "(\<And>i. i < n \<Longrightarrow> m (p + i) = m' (p + i)) \<Longrightarrow> bytes_at m p n = bytes_at m' p n"
  by (rule bytes_at_eqI) (simp_all add: nth_bytes_at)

lemma bytes_at_memset:
  "bytes_at (memset m p c n) 0 (p + n) = bytes_at m 0 p @ replicate n c"
proof -
  have "bytes_at (memset m p c n) 0 p = bytes_at m 0 p"
    by (rule bytes_at_cong) (simp add: memset_def)
  moreover have "bytes_at (memset m p c n) p n = replicate n c"
    by (rule bytes_at_eqI) (simp_all add: memset_def)
  ultimately show ?thesis
    by (simp add: bytes_at_append)
qed

lemma flush_buffer_empty: "buffer_position column = 0 \<Longrightarrow> flush_buffer column = column"
  by (simp add: flush_buffer_def)

lemma flush_while_empty:
  "buffer_size column \<noteq> 0 \<Longrightarrow> buffer_position column = 0 \<Longrightarrow>
     flush_while column n = Some (column, n mod buffer_size column)"
proof (induction column n rule: flush_while.induct)
  case (1 column copy_size)
  show ?case
  proof (cases "buffer_size column \<le> copy_size")
    case True
    with 1 show ?thesis
      by (simp add: flush_while.simps [of column copy_size] flush_buffer_empty le_mod_geq)
  next
    case False
    with 1 show ?thesis
      by (simp add: flush_while.simps [of column copy_size])
  qed
qed

text \<open>
  The fill position never passes the end of the buffer, so the subtraction
  \<open>buffer_size - buffer_position\<close> of the source, on \<open>size_t\<close>, does not wrap.
\<close>

lemma add_chars_to_column_within:
  assumes "buffer_size c \<noteq> 0" and "add_chars_to_column c chr n = Some c'"
  shows "buffer_size c' = buffer_size c \<and> buffer_position c' \<le> buffer_size c'"
proof -
  have full: "flush_while (d\<lparr>buffer := m\<rparr>) n = Some (d\<lparr>buffer := m\<rparr>, n mod buffer_size c)"
    if "buffer_size d = buffer_size c" and "buffer_position d = 0" for d m
    using flush_while_empty [of "d\<lparr>buffer := m\<rparr>" n] assms(1) that by simp
  have less: "n mod buffer_size c \<le> buffer_size c"
    using assms(1) by (simp add: less_imp_le)
  from assms less show ?thesis
    by (cases "buffer_position c = 0"; cases "buffer_size c \<le> n")
      (auto simp: add_chars_to_column_def Let_def flush_buffer_def full split: if_splits)
qed

lemma fill_from_start:
  assumes "buffer_size c \<noteq> 0" and "buffer_position c = 0"
  shows "\<exists>c'. (if buffer_size c \<le> count then
                 (case flush_while (c\<lparr>buffer := memset (buffer c) 0 chr (buffer_size c)\<rparr>)
                         count of
                    None \<Rightarrow> None
                  | Some (column2, copy_size') \<Rightarrow> Some (column2\<lparr>buffer_position := copy_size'\<rparr>))
               else Some (c\<lparr>buffer := memset (buffer c) 0 chr count,
                            buffer_position := count\<rparr>)) = Some c'
             \<and> column_output c' = written c @ replicate (count mod buffer_size c) chr"
proof -
  have fill: "bytes_at (memset (buffer c) 0 chr n) 0 k = replicate k chr" if "k \<le> n" for n k
    using that by (intro bytes_at_eqI) (simp_all add: memset_def)
  show ?thesis
  proof (cases "buffer_size c \<le> count")
    case True
    let ?full = "c\<lparr>buffer := memset (buffer c) 0 chr (buffer_size c)\<rparr>"
    have "flush_while ?full count = Some (?full, count mod buffer_size c)"
      using flush_while_empty [of ?full count] assms by simp
    moreover have "count mod buffer_size c \<le> buffer_size c"
      using assms by (simp add: less_imp_le)
    ultimately show ?thesis
      using True fill by (simp add: column_output_def)
  next
    case False
    then show ?thesis
      using fill by (simp add: column_output_def)
  qed
qed

text \<open>
  Claim C2 says that \<^verbatim>\<open>add_chars_to_column\<close> appends exactly \<open>count\<close> copies of the byte to
  the column's output, also for counts of the buffer's size and more. It does so when the
  copies fit the free part of the buffer. When they do not, the pending bytes are flushed
  and the buffer is filled once; the loop that should write it out repeatedly calls
  \<^verbatim>\<open>flush_buffer\<close> while \<open>buffer_position\<close> is 0, and each such call writes 0 bytes. The
  column's output then grows by \<open>count mod buffer_size\<close> copies only: by one newline for a
  count of 16385 on an empty buffer, where the source's comment says the buffer is filled
  once and written multiple times.
\<close>

theorem add_chars_to_column_output:
  assumes "buffer_size column \<noteq> 0"
  shows "\<exists>column'. add_chars_to_column column chr count = Some column'
           \<and> column_output column' =
               column_output column
                 @ replicate (if buffer_position column + count \<le> buffer_size column
                              then count else count mod buffer_size column) chr"
proof (cases "buffer_position column + count \<le> buffer_size column")
  case True
  then show ?thesis
    by (simp add: add_chars_to_column_def column_output_def bytes_at_memset)
next
  case False
  show ?thesis
  proof (cases "buffer_position column = 0")
    case True
    from fill_from_start [OF assms True, of count chr] False True show ?thesis
      by (simp add: add_chars_to_column_def column_output_def)
  next
    case nonempty: False
    have "buffer_size (flush_buffer column) \<noteq> 0" and "buffer_position (flush_buffer column) = 0"
      using assms by (simp_all add: flush_buffer_def)
    from fill_from_start [OF this, of count chr] obtain c' where
      eq: "(if buffer_size (flush_buffer column) \<le> count then
              (case flush_while
                      ((flush_buffer column)
                         \<lparr>buffer := memset (buffer (flush_buffer column)) 0 chr
                                      (buffer_size (flush_buffer column))\<rparr>) count of
                 None \<Rightarrow> None
               | Some (column2, copy_size') \<Rightarrow> Some (column2\<lparr>buffer_position := copy_size'\<rparr>))
            else Some ((flush_buffer column)
                         \<lparr>buffer := memset (buffer (flush_buffer column)) 0 chr count,
                          buffer_position := count\<rparr>)) = Some c'"
      and out: "column_output c' =
                  written (flush_buffer column)
                    @ replicate (count mod buffer_size (flush_buffer column)) chr"
      by blast
    have "add_chars_to_column column chr count = Some c'"
      unfolding add_chars_to_column_def Let_def using eq False nonempty
      by (simp split: if_splits)
    moreover have "written (flush_buffer column) = column_output column"
      and "buffer_size (flush_buffer column) = buffer_size column"
      by (simp_all add: flush_buffer_def column_output_def)
    ultimately show ?thesis
      using out False by simp
  qed
qed

theorem add_chars_to_column_output_witness:
  "\<exists>column'. add_chars_to_column
       \<lparr>output_fd = ''001.csv'', written = [], buffer = (\<lambda>i. CHR 0x00),
        buffer_size = BUFFER_SIZE, buffer_position = 0, on_heap = False\<rparr> NEWLINE 16385
       = Some column'
     \<and> column_output column' = [NEWLINE]"
  using add_chars_to_column_output
          [of "\<lparr>output_fd = ''001.csv'', written = [], buffer = (\<lambda>i. CHR 0x00),
                buffer_size = BUFFER_SIZE, buffer_position = 0, on_heap = False\<rparr>"
              NEWLINE 16385]
  by (simp add: BUFFER_SIZE_def column_output_def)

section \<open>The names of the column files (C8)\<close>

text \<open>The paths of the columns of a state, and the paths the code gives \<open>n\<close> columns.\<close>

definition column_paths :: "splitter \<Rightarrow> string list" where
  "column_paths st = map output_fd (column_infos st)"

definition expected_paths :: "string \<Rightarrow> nat \<Rightarrow> string list" where
  "expected_paths name n = map (\<lambda>i. name @ sprintf_03zu (i + 1) @ ''.csv'') [0..<n]"

lemma flush_buffer_fd [simp]: "output_fd (flush_buffer column) = output_fd column"
  by (simp add: flush_buffer_def)

lemma add_buffer_loop_fd:
  "add_buffer_loop column src f n r = Some (column', f', n') \<Longrightarrow>
     output_fd column' = output_fd column"
proof (induction column src f n r rule: add_buffer_loop.induct)
  case (1 column src f n r)
  show ?case
  proof (cases "buffer_size column \<noteq> 0 \<and> r \<le> n")
    case True
    with "1.prems" "1.IH" show ?thesis
      by (simp add: add_buffer_loop.simps [of column src f n r])
  next
    case False
    with "1.prems" show ?thesis
      by (auto simp: add_buffer_loop.simps [of column src f n r] split: if_splits)
  qed
qed

lemma add_buffer_to_column_fd:
  "add_buffer_to_column column src f n = Some column' \<Longrightarrow> output_fd column' = output_fd column"
  by (auto simp: add_buffer_to_column_def split: option.splits if_splits
           dest: add_buffer_loop_fd)

lemma flush_while_fd:
  "flush_while column n = Some (column', n') \<Longrightarrow> output_fd column' = output_fd column"
proof (induction column n rule: flush_while.induct)
  case (1 column n)
  show ?case
  proof (cases "buffer_size column \<noteq> 0 \<and> buffer_size column \<le> n")
    case True
    with "1.prems" "1.IH" show ?thesis
      by (simp add: flush_while.simps [of column n])
  next
    case False
    with "1.prems" show ?thesis
      by (auto simp: flush_while.simps [of column n] split: if_splits)
  qed
qed

lemma add_chars_to_column_fd:
  "add_chars_to_column column chr n = Some column' \<Longrightarrow> output_fd column' = output_fd column"
  by (auto simp: add_chars_to_column_def Let_def split: option.splits if_splits
           dest: flush_while_fd)

lemma with_column_paths:
  assumes "with_column st i f = Inr st'"
    and "\<And>c c'. f c = Some c' \<Longrightarrow> output_fd c' = output_fd c"
  shows "column_paths st' = column_paths st"
proof -
  from assms(1) obtain c where i: "i < length (column_infos st)"
    and f: "f (column_infos st ! i) = Some c"
    and st': "st' = st\<lparr>column_infos := (column_infos st)[i := c]\<rparr>"
    by (auto simp: with_column_def split: if_splits option.splits)
  from assms(2) [OF f] i have "(map output_fd (column_infos st))[i := output_fd c]
                                = map output_fd (column_infos st)"
    by (simp add: list_update_same_conv)
  then show ?thesis
    by (simp add: column_paths_def st' map_update)
qed

lemma copy_to_column_paths:
  "copy_to_column st stop = Inr st' \<Longrightarrow> column_paths st' = column_paths st"
  by (auto simp: copy_to_column_def split: if_splits
           elim!: with_column_paths dest: add_buffer_to_column_fd)

lemma terminate_column_paths:
  "terminate_column st = Inr st' \<Longrightarrow> column_paths st' = column_paths st"
proof -
  assume a: "terminate_column st = Inr st'"
  then obtain st1 where w: "with_column st (current_column st)
                              (\<lambda>column. add_chars_to_column column NEWLINE 1) = Inr st1"
    and st': "st' = st1\<lparr>current_column := current_column st1 + 1\<rparr>"
    by (auto simp: terminate_column_def split: sum.splits)
  from with_column_paths [OF w] have "column_paths st1 = column_paths st"
    by (simp add: add_chars_to_column_fd)
  then show ?thesis by (simp add: st' column_paths_def)
qed

lemma mark_next_newline_paths:
  "mark_next_newline st p = Inr st' \<Longrightarrow> column_paths st' = column_paths st"
  by (auto simp: mark_next_newline_def column_paths_def split: option.splits)

lemma revert_newline_paths:
  "revert_newline st p = Inr st' \<Longrightarrow> column_paths st' = column_paths st"
  by (auto simp: revert_newline_def split: if_splits dest!: mark_next_newline_paths)
     (simp_all add: column_paths_def)

lemma pad_columns_paths:
  "pad_columns st = Inr st' \<Longrightarrow> column_paths st' = column_paths st"
proof (induction st rule: pad_columns.induct)
  case (1 st)
  show ?case
  proof (cases "current_column st \<noteq> length (column_infos st)")
    case False
    with "1.prems" show ?thesis by (simp add: pad_columns.simps [of st])
  next
    case True
    with "1.prems" obtain st1 where t: "terminate_column st = Inr st1"
      and p: "pad_columns st1 = Inr st'"
      by (auto simp: pad_columns.simps [of st] split: sum.splits)
    from "1.IH" [OF True t p] terminate_column_paths [OF t] show ?thesis by simp
  qed
qed

lemma expected_paths_Suc:
  "expected_paths name (Suc n) = expected_paths name n @ [name @ sprintf_03zu (n + 1) @ ''.csv'']"
  by (simp add: expected_paths_def)

lemma CHECK_AND_CREATE_COLUMN_paths:
  assumes "CHECK_AND_CREATE_COLUMN env name st = Inr st'"
    and "column_paths st = expected_paths name (length (column_infos st))"
  shows "column_paths st' = expected_paths name (length (column_infos st'))"
proof (cases "current_column st = length (column_infos st)")
  case False
  with assms show ?thesis by (simp add: CHECK_AND_CREATE_COLUMN_def)
next
  case True
  with assms(1) obtain info info' where
    c: "CREATE_COLUMN_INFO env name (length (column_infos st) + 1) = Inr info"
    and a: "add_chars_to_column info NEWLINE (current_row st) = Some info'"
    and st': "column_infos st' = column_infos st @ [info']"
    by (auto simp: CHECK_AND_CREATE_COLUMN_def split: sum.splits option.splits)
  from c have "output_fd info = name @ sprintf_03zu (length (column_infos st) + 1) @ ''.csv''"
    by (auto simp: CREATE_COLUMN_INFO_def split: if_splits)
  with add_chars_to_column_fd [OF a] assms(2) show ?thesis
    by (simp add: column_paths_def st' expected_paths_Suc)
qed

definition paths_ok :: "string \<Rightarrow> splitter \<Rightarrow> bool" where
  "paths_ok name st = (column_paths st = expected_paths name (length (column_infos st)))"

lemma paths_ok_same:
  "paths_ok name st \<Longrightarrow> column_paths st' = column_paths st \<Longrightarrow> paths_ok name st'"
  by (metis paths_ok_def column_paths_def length_map)


lemma paths_ok_update [simp]:
  "paths_ok name (st\<lparr>previous_ptr := p\<rparr>) = paths_ok name st"
  "paths_ok name (st\<lparr>current_state := s\<rparr>) = paths_ok name st"
  "paths_ok name (st\<lparr>current_column := c\<rparr>) = paths_ok name st"
  "paths_ok name (st\<lparr>current_row := r\<rparr>) = paths_ok name st"
  "paths_ok name (st\<lparr>input_buffer := m\<rparr>) = paths_ok name st"
  "paths_ok name (st\<lparr>NEWLINE_SENTINEL := a\<rparr>) = paths_ok name st"
  "paths_ok name (st\<lparr>COMMA_SENTINEL := a\<rparr>) = paths_ok name st"
  "paths_ok name (st\<lparr>DQUOTE_SENTINEL := a\<rparr>) = paths_ok name st"
  by (simp_all add: paths_ok_def column_paths_def)

lemma CHECK_AND_CREATE_COLUMN_ok:
  "CHECK_AND_CREATE_COLUMN env name st = Inr st' \<Longrightarrow> paths_ok name st \<Longrightarrow> paths_ok name st'"
  unfolding paths_ok_def by (rule CHECK_AND_CREATE_COLUMN_paths)

lemma with_column_ok:
  "with_column st i f = Inr st' \<Longrightarrow> (\<And>c c'. f c = Some c' \<Longrightarrow> output_fd c' = output_fd c) \<Longrightarrow>
     paths_ok name st \<Longrightarrow> paths_ok name st'"
  using paths_ok_same with_column_paths by blast

lemma copy_to_column_ok:
  "copy_to_column st stop = Inr st' \<Longrightarrow> paths_ok name st \<Longrightarrow> paths_ok name st'"
  using paths_ok_same copy_to_column_paths by blast

lemma terminate_column_ok:
  "terminate_column st = Inr st' \<Longrightarrow> paths_ok name st \<Longrightarrow> paths_ok name st'"
  using paths_ok_same terminate_column_paths by blast

lemma mark_next_newline_ok:
  "mark_next_newline st p = Inr st' \<Longrightarrow> paths_ok name st \<Longrightarrow> paths_ok name st'"
  using paths_ok_same mark_next_newline_paths by blast

lemma revert_newline_ok:
  "revert_newline st p = Inr st' \<Longrightarrow> paths_ok name st \<Longrightarrow> paths_ok name st'"
  using paths_ok_same revert_newline_paths by blast

lemma pad_columns_ok:
  "pad_columns st = Inr st' \<Longrightarrow> paths_ok name st \<Longrightarrow> paths_ok name st'"
  using paths_ok_same pad_columns_paths by blast

lemma on_column_initial_ok:
  "on_column_initial env name st = Inr st' \<Longrightarrow> paths_ok name st \<Longrightarrow> paths_ok name st'"
  by (auto simp: on_column_initial_def split: if_splits sum.splits
           dest!: CHECK_AND_CREATE_COLUMN_ok terminate_column_ok
           elim!: with_column_ok dest: add_chars_to_column_fd)

lemma on_row_initial_ok:
  "on_row_initial env name st = Inr st' \<Longrightarrow> paths_ok name st \<Longrightarrow> paths_ok name st'"
  by (auto simp: on_row_initial_def split: sum.splits
           dest!: pad_columns_ok mark_next_newline_ok on_column_initial_ok)

lemma in_simple_column_ok:
  "in_simple_column st = Inr fl \<Longrightarrow> paths_ok name st \<Longrightarrow>
     (case fl of state_begin st' \<Rightarrow> paths_ok name st' | read_chunk st' \<Rightarrow> paths_ok name st')"
  by (auto simp: in_simple_column_def split: option.splits if_splits sum.splits
           dest!: copy_to_column_ok terminate_column_ok)

lemma in_quoted_string_column_ok:
  "in_quoted_string_column st last_read = Inr fl \<Longrightarrow> paths_ok name st \<Longrightarrow>
     (case fl of state_begin st' \<Rightarrow> paths_ok name st' | read_chunk st' \<Rightarrow> paths_ok name st')"
proof (induction st last_read rule: in_quoted_string_column.induct)
  case (1 st last_read)
  from "1.prems"(1) obtain next_ptr st1 where
    r: "rawmemchr (input_buffer st) last_read DQUOTE = Some next_ptr"
    and v: "revert_newline st next_ptr = Inr st1"
    by (auto simp: in_quoted_string_column.simps [of st last_read]
             split: option.splits sum.splits)
  from revert_newline_ok [OF v "1.prems"(2)] have ok1: "paths_ok name st1" .
  show ?case
  proof (cases "next_ptr \<noteq> DQUOTE_SENTINEL st1 \<and> next_ptr \<noteq> BUFFER_SIZE - 1
                 \<and> \<not> INPUT_ALLOC \<le> next_ptr + 1
                 \<and> input_buffer st1 (next_ptr + 1) = DQUOTE")
    case True
    with "1.prems"(1) r v have
      "in_quoted_string_column st1 (next_ptr + 2) = Inr fl"
      by (simp add: in_quoted_string_column.simps [of st last_read])
    with "1.IH" [OF r v] True ok1 show ?thesis by simp
  next
    case False
    with "1.prems"(1) r v ok1 show ?thesis
      by (auto simp: in_quoted_string_column.simps [of st last_read]
               split: if_splits sum.splits
               dest!: copy_to_column_ok terminate_column_ok mark_next_newline_ok)
  qed
qed

lemma map_sum_eq_Inr:
  "map_sum f g x = Inr y \<longleftrightarrow> (\<exists>z. x = Inr z \<and> y = g z)"
  by (cases x) auto

lemma step_ok:
  "step env name st = Inr fl \<Longrightarrow> paths_ok name st \<Longrightarrow>
     (case fl of state_begin st' \<Rightarrow> paths_ok name st' | read_chunk st' \<Rightarrow> paths_ok name st')"
  by (cases "current_state st")
     (auto simp: step_def map_sum_eq_Inr split: if_splits
           dest!: on_row_initial_ok on_column_initial_ok
           dest: in_simple_column_ok in_quoted_string_column_ok)

lemma process_chunk_ok:
  "process_chunk env name st = Inr st' \<Longrightarrow> paths_ok name st \<Longrightarrow> paths_ok name st'"
proof (induction env name st rule: process_chunk.induct)
  case (1 env name st)
  from "1.prems"(1) obtain fl where s: "step env name st = Inr fl"
    by (auto simp: process_chunk.simps [of env name st] split: sum.splits)
  show ?case
  proof (cases fl)
    case (read_chunk st1)
    with s "1.prems" step_ok [OF s "1.prems"(2)] show ?thesis
      by (simp add: process_chunk.simps [of env name st])
  next
    case (state_begin st1)
    with s "1.prems"(1) have "process_chunk env name st1 = Inr st'"
      by (simp add: process_chunk.simps [of env name st])
    moreover from step_ok [OF s "1.prems"(2)] state_begin have "paths_ok name st1" by simp
    ultimately show ?thesis
      using "1.IH" [OF s state_begin] by simp
  qed
qed

lemma receive_chunk_ok:
  "receive_chunk st bs = Inr st' \<Longrightarrow> paths_ok name st \<Longrightarrow> paths_ok name st'"
  by (auto simp: receive_chunk_def Let_def split: if_splits dest!: mark_next_newline_ok)

lemma end_of_stream_paths:
  "map output_fd (column_infos (end_of_stream st)) = column_paths st"
  by (simp add: end_of_stream_def column_paths_def)

lemma read_loop_ok:
  "read_loop env name st reads = Inr st' \<Longrightarrow> paths_ok name st \<Longrightarrow>
     map output_fd (column_infos st') = expected_paths name (length (column_infos st'))"
proof (induction env name st reads rule: read_loop.induct)
  case (1 env name st)
  then show ?case
    by (auto simp: end_of_stream_paths paths_ok_def) (simp add: end_of_stream_def)
next
  case (2 env name st rest)
  then show ?case by simp
next
  case (3 env name st bs rest)
  show ?case
  proof (cases "bs = []")
    case True
    with "3.prems" show ?thesis
      by (auto simp: end_of_stream_paths paths_ok_def) (simp add: end_of_stream_def)
  next
    case False
    with "3.prems"(1) obtain st1 st2 where r: "receive_chunk st bs = Inr st1"
      and p: "process_chunk env name st1 = Inr st2"
      and l: "read_loop env name st2 rest = Inr st'"
      by (auto split: sum.splits)
    from process_chunk_ok [OF p receive_chunk_ok [OF r "3.prems"(2)]]
    have "paths_ok name st2" .
    with "3.IH" [OF False r p l] show ?thesis .
  qed
qed

lemma initial_splitter_ok: "paths_ok name (initial_splitter env)"
  by (simp add: paths_ok_def column_paths_def expected_paths_def initial_splitter_def)

lemma end_of_stream_ok: "paths_ok name st \<Longrightarrow> paths_ok name (end_of_stream st)"
  by (rule paths_ok_same) (simp_all add: end_of_stream_def column_paths_def comp_def)

lemma reaches_ok: "reaches env name l st \<Longrightarrow> paths_ok name st"
proof (induction rule: reaches.induct)
  case start
  show ?case by (rule initial_splitter_ok)
next
  case (receive st bs st')
  then show ?case by (simp add: receive_chunk_ok)
next
  case (pass st st')
  from step_ok [OF pass.hyps(2) pass.IH] show ?case by simp
next
  case (chunk_end st st')
  from step_ok [OF chunk_end.hyps(2) chunk_end.IH] show ?case by simp
next
  case (finish st)
  then show ?case by (simp add: end_of_stream_ok)
qed

text \<open>The files of a run that returns are named in this way.\<close>

lemma files_of_a_returning_run:
  assumes "split_csv env name reads = Inr out" and "i < length (files out)"
  shows "fst (files out ! i) = name @ sprintf_03zu (i + 1) @ ''.csv''"
proof -
  from assms(1) obtain st where l: "read_loop env name (initial_splitter env) reads = Inr st"
    and out: "files out = map (\<lambda>column. (output_fd column, written column)) (column_infos st)"
    by (auto simp: split_csv_def split: sum.splits)
  from read_loop_ok [OF l initial_splitter_ok]
  have "map output_fd (column_infos st) ! i = expected_paths name (length (column_infos st)) ! i"
    by simp
  with assms(2) show ?thesis
    by (simp add: out expected_paths_def)
qed

text \<open>
  No run stops between the creation of a file and the next label: the pass through
  \<^verbatim>\<open>case OnColumnInitial\<close> in which \<^verbatim>\<open>CHECK_AND_CREATE_COLUMN\<close> has created a column goes on
  to \<^verbatim>\<open>state_begin\<close>, since the new column has a buffer of \<open>BUFFER_SIZE\<close> bytes and is the
  current one. So every file a run creates belongs to a column of a state the run reaches.
\<close>

lemma add_chars_to_column_returns:
  assumes "buffer_size c \<noteq> 0"
  shows "\<exists>c'. add_chars_to_column c chr n = Some c'"
proof -
  have full: "flush_while (d\<lparr>buffer := m\<rparr>) n = Some (d\<lparr>buffer := m\<rparr>, n mod buffer_size c)"
    if "buffer_size d = buffer_size c" and "buffer_position d = 0" for d m
    using flush_while_empty [of "d\<lparr>buffer := m\<rparr>" n] assms that by simp
  show ?thesis
    by (cases "buffer_position c = 0"; cases "buffer_size c \<le> n")
      (auto simp: add_chars_to_column_def Let_def flush_buffer_def full)
qed

lemma CHECK_AND_CREATE_COLUMN_new:
  assumes "CHECK_AND_CREATE_COLUMN env name st = Inr st1"
    and "current_column st = length (column_infos st)"
  shows "\<exists>info. st1 = st\<lparr>column_infos := column_infos st @ [info],
                          heap_blocks := heap_blocks st + (if on_heap info then 1 else 0)\<rparr>
           \<and> buffer_size info = BUFFER_SIZE"
proof -
  from assms obtain info info' where
    c: "CREATE_COLUMN_INFO env name (length (column_infos st) + 1) = Inr info"
    and a: "add_chars_to_column info NEWLINE (current_row st) = Some info'"
    and st1: "st1 = st\<lparr>column_infos := column_infos st @ [info'],
                        heap_blocks := heap_blocks st + (if on_heap info' then 1 else 0)\<rparr>"
    by (auto simp: CHECK_AND_CREATE_COLUMN_def split: sum.splits option.splits)
  from c have "buffer_size info = BUFFER_SIZE"
    by (auto simp: CREATE_COLUMN_INFO_def split: if_splits)
  with add_chars_to_column_within [OF _ a] have "buffer_size info' = BUFFER_SIZE"
    by (simp add: BUFFER_SIZE_def)
  with st1 show ?thesis by blast
qed

lemma creating_pass_returns:
  assumes "current_column st = length (column_infos st)"
    and "CHECK_AND_CREATE_COLUMN env name st = Inr st1"
    and "previous_ptr st < INPUT_ALLOC" and "input_buffer st (previous_ptr st) \<noteq> NEWLINE"
  shows "\<exists>st'. on_column_initial env name st = Inr st'"
proof -
  from CHECK_AND_CREATE_COLUMN_new [OF assms(2,1)] obtain info where
    st1: "st1 = st\<lparr>column_infos := column_infos st @ [info],
                      heap_blocks := heap_blocks st + (if on_heap info then 1 else 0)\<rparr>"
    and size: "buffer_size info = BUFFER_SIZE"
    by blast
  have "\<exists>st2. with_column st1 (current_column st1) (\<lambda>column. add_chars_to_column column chr 1)
                = Inr st2" for chr
  proof -
    from size have "buffer_size info \<noteq> 0" by (simp add: BUFFER_SIZE_def)
    from add_chars_to_column_returns [OF this, of chr 1] obtain c' where
      "add_chars_to_column info chr 1 = Some c'" ..
    with assms(1) show ?thesis
      by (simp add: with_column_def st1)
  qed
  from this [of DQUOTE] this [of NEWLINE] assms(2,3,4) show ?thesis
    by (auto simp: on_column_initial_def terminate_column_def)
qed

text \<open>
  Claim C8, as the code has it. \<^verbatim>\<open>CHECK_AND_CREATE_COLUMN\<close> grows the vector first and passes its
  new size as the id, so the column with 0-based discovery index \<open>i\<close> gets the number
  \<open>i + 1\<close>: its file is named by the prefix, then \<open>i + 1\<close> in decimal padded with zeros to at
  least three digits, then \<^verbatim>\<open>.csv\<close>. This holds for every column of every state a run
  reaches, at either label and at the end, also in a run that later exits or aborts.
\<close>

theorem column_file_names:
  assumes "reaches env name l st" and "i < length (column_infos st)"
  shows "output_fd (column_infos st ! i) = name @ sprintf_03zu (i + 1) @ ''.csv''"
proof -
  from reaches_ok [OF assms(1)]
  have "map output_fd (column_infos st) ! i = expected_paths name (length (column_infos st)) ! i"
    by (simp add: paths_ok_def column_paths_def)
  with assms(2) show ?thesis
    by (simp add: expected_paths_def)
qed

text \<open>
  An instance in a run that does not return: of the input \<^verbatim>\<open>a,b\<close> and a newline the second
  column cannot be created, so the run exits, after it has created the first column.
\<close>

theorem column_file_names_witness:
  "\<exists>st. reaches (plain_environment\<lparr>can_create := (\<lambda>path. path = ''col001.csv'')\<rparr>) ''col''
           at_state_begin st
        \<and> split_csv (plain_environment\<lparr>can_create := (\<lambda>path. path = ''col001.csv'')\<rparr>) ''col''
            [Bytes (''a,b'' @ [NEWLINE])] = Inl OpenFailed
        \<and> 0 < length (column_infos st)
        \<and> output_fd (column_infos st ! 0) = ''col'' @ sprintf_03zu (0 + 1) @ ''.csv''
        \<and> output_fd (column_infos st ! 0) = ''col001.csv''"
proof -
  let ?E = "plain_environment\<lparr>can_create := (\<lambda>path. path = ''col001.csv'')\<rparr>"
  have "\<exists>st1 st2. receive_chunk (initial_splitter ?E) (''a,b'' @ [NEWLINE]) = Inr st1
          \<and> step ?E ''col'' st1 = Inr (state_begin st2) \<and> 0 < length (column_infos st2)"
    by (simp add: eval_simps should_use_heap_def)
  then obtain st1 st2 where r: "receive_chunk (initial_splitter ?E) (''a,b'' @ [NEWLINE]) = Inr st1"
    and s: "step ?E ''col'' st1 = Inr (state_begin st2)" and n: "0 < length (column_infos st2)"
    by blast
  have "reaches ?E ''col'' at_state_begin st1"
    by (rule reaches.receive [OF reaches.start _ r]) simp
  from reaches.pass [OF this s] have reached: "reaches ?E ''col'' at_state_begin st2" .
  have failed: "split_csv ?E ''col'' [Bytes (''a,b'' @ [NEWLINE])] = Inl OpenFailed"
    by (simp add: eval_simps should_use_heap_def)
  from column_file_names [OF reached n] reached failed n show ?thesis
    by (auto simp: sprintf_03zu_1)
qed

text \<open>The files of the input \<^verbatim>\<open>a,b\<close> and a newline when both can be created.\<close>

lemma two_column_files:
  "split_csv plain_environment ''col'' [Bytes (''a,b'' @ [NEWLINE])]
     = Inr \<lparr>files = [(''col001.csv'', ''a'' @ [NEWLINE]), (''col002.csv'', ''b'' @ [NEWLINE])],
            unfreed_blocks = 0\<rparr>"
  by (simp add: eval_simps should_use_heap_def)

lemma sprintf_03zu_0: "sprintf_03zu 0 = ''000''"
  by (simp add: sprintf_03zu_def decimal.simps digit_char_def numeral_eq_Suc)

text \<open>The number is never cut, and short numbers are filled up with zeros on the left.\<close>

lemma sprintf_03zu_length: "3 \<le> length (sprintf_03zu n)"
  by (simp add: sprintf_03zu_def)

lemma sprintf_03zu_examples:
  "sprintf_03zu 7 = ''007''" "sprintf_03zu 42 = ''042''"
  "sprintf_03zu 999 = ''999''" "sprintf_03zu 1000 = ''1000''"
proof -
  have two: "replicate 2 x = [x, x]" for x :: char
    by (simp add: numeral_2_eq_2)
  show "sprintf_03zu 7 = ''007''" "sprintf_03zu 42 = ''042''"
    "sprintf_03zu 999 = ''999''" "sprintf_03zu 1000 = ''1000''"
    by (simp_all add: sprintf_03zu_def decimal.simps digit_char_def two)
qed

text \<open>
  Claim C8 as the spec states it numbers the files from 0, so that the first column with an
  empty prefix would be \<^verbatim>\<open>000.csv\<close>. It is \<^verbatim>\<open>001.csv\<close>.
\<close>

theorem first_column_is_not_000:
  "split_csv plain_environment [] [Bytes (''a'' @ [NEWLINE])]
     = Inr \<lparr>files = [(''001.csv'', ''a'' @ [NEWLINE])], unfreed_blocks = 0\<rparr>
   \<and> ''001.csv'' \<noteq> [] @ sprintf_03zu 0 @ ''.csv''"
  by (simp add: eval_simps should_use_heap_def sprintf_03zu_0)

section \<open>Resuming after a quote on the last byte of a window (C3)\<close>

text \<open>Scans over long ranges are settled by what the scanned bytes are.\<close>

lemma rawmemchr_eqI:
  assumes "p \<le> q" and "q < INPUT_ALLOC" and "m q = c"
    and "\<And>i. p \<le> i \<Longrightarrow> i < q \<Longrightarrow> m i \<noteq> c"
  shows "rawmemchr m p c = Some q"
  using assms
proof (induction "q - p" arbitrary: p)
  case 0
  then have "p = q" by simp
  with "0.prems" show ?case by (simp add: rawmemchr.simps [of m q c])
next
  case (Suc d)
  then have "p < q" and "d = q - (p + 1)" by simp_all
  moreover from \<open>p < q\<close> Suc.prems have "m p \<noteq> c" and "\<not> INPUT_ALLOC \<le> p" by simp_all
  moreover have "rawmemchr m (p + 1) c = Some q"
    using Suc.hyps(1) [of "p + 1"] Suc.prems \<open>p < q\<close> \<open>d = q - (p + 1)\<close> by simp
  ultimately show ?case by (simp add: rawmemchr.simps [of m p c])
qed

lemma rawmemchr_finds:
  assumes "p \<le> q" and "q < INPUT_ALLOC" and "m q = c"
  shows "\<exists>r. rawmemchr m p c = Some r"
  using assms
proof (induction "q - p" arbitrary: p)
  case 0
  then have "p = q" by simp
  with "0.prems" show ?case by (simp add: rawmemchr.simps [of m q c])
next
  case (Suc d)
  then have "p < q" and "d = q - (p + 1)" by simp_all
  with Suc.hyps(1) [of "p + 1"] Suc.prems
  have "\<exists>r. rawmemchr m (p + 1) c = Some r" by simp
  with \<open>p < q\<close> Suc.prems show ?case
    by (simp add: rawmemchr.simps [of m p c])
qed

lemma process_chunk_on_quote:
  "current_state st = InQuotedStringColumnOnQuote \<Longrightarrow> previous_ptr st \<noteq> NEWLINE_SENTINEL st \<Longrightarrow>
     process_chunk env name st = Inl AssertionFailed"
  by (simp add: process_chunk.simps [of env name st] step_def)

lemma read_loop_on_quote:
  assumes "current_state st = InQuotedStringColumnOnQuote"
    and "bs \<noteq> []" and "length bs < BUFFER_SIZE"
  shows "read_loop env name st (Bytes bs # rest) = Inl AssertionFailed"
proof -
  let ?m = "(read_into (input_buffer st) bs)
              (length bs := NEWLINE, length bs + 1 := COMMA, length bs + 2 := DQUOTE)"
  let ?st = "st\<lparr>input_buffer := ?m, NEWLINE_SENTINEL := length bs,
                 COMMA_SENTINEL := length bs + 1, DQUOTE_SENTINEL := length bs + 2,
                 previous_ptr := 0\<rparr>"
  have "length bs < INPUT_ALLOC" and "?m (length bs) = NEWLINE"
    using assms(3) by (simp_all add: INPUT_ALLOC_def)
  with rawmemchr_finds [of 0 "length bs" ?m NEWLINE] obtain r where
    r: "rawmemchr ?m 0 NEWLINE = Some r" by auto
  have "receive_chunk st bs = mark_next_newline ?st 0"
    using assms by (simp add: receive_chunk_def Let_def)
  with r obtain st' where rc: "receive_chunk st bs = Inr st'"
    and st': "current_state st' = InQuotedStringColumnOnQuote"
      "previous_ptr st' = 0" "NEWLINE_SENTINEL st' = length bs"
    using assms(1) by (simp add: mark_next_newline_def)
  from st' assms(2) have "process_chunk env name st' = Inl AssertionFailed"
    by (intro process_chunk_on_quote) simp_all
  with rc assms(2) show ?thesis by simp
qed


text \<open>
  Claim C3 says that a window entered in state \<^verbatim>\<open>InQuotedStringColumnOnQuote\<close> is continued
  according to its first byte: a quote is a literal quote of the field, a separator ends
  the field, anything else is fatal. The comments inside the case say the same. But the case
  begins with \<^verbatim>\<open>assert(false)\<close>. So whenever the \<^verbatim>\<open>switch\<close> is reached in this state the process
  aborts, whatever the byte under \<open>previous_ptr\<close> is; and a run that is in this state when a
  read delivers further bytes (fewer than the buffer holds, as the last read of a file does)
  aborts on them.
\<close>

theorem resume_after_quote_aborts:
  assumes "current_state st = InQuotedStringColumnOnQuote"
  shows "(previous_ptr st \<noteq> NEWLINE_SENTINEL st \<longrightarrow>
            process_chunk env name st = Inl AssertionFailed)
       \<and> (bs \<noteq> [] \<and> length bs < BUFFER_SIZE \<longrightarrow>
            read_loop env name st (Bytes bs # rest) = Inl AssertionFailed)"
  using assms process_chunk_on_quote read_loop_on_quote by blast

theorem resume_after_quote_aborts_witness:
  "process_chunk plain_environment []
     ((initial_splitter plain_environment)\<lparr>current_state := InQuotedStringColumnOnQuote\<rparr>)
     = Inl AssertionFailed
   \<and> read_loop plain_environment []
     ((initial_splitter plain_environment)\<lparr>current_state := InQuotedStringColumnOnQuote\<rparr>)
     [Bytes [DQUOTE, CHR ''c'', DQUOTE, NEWLINE]]
     = Inl AssertionFailed"
  using resume_after_quote_aborts
          [of "(initial_splitter plain_environment)
                 \<lparr>current_state := InQuotedStringColumnOnQuote\<rparr>"
              plain_environment "[]" "[DQUOTE, CHR ''c'', DQUOTE, NEWLINE]" "[]"]
  by (simp add: initial_splitter_def BUFFER_SIZE_def)

section \<open>Windows and short reads (C7, C1)\<close>

text \<open>
  \<^verbatim>\<open>add_buffer_to_column\<close> appends exactly the bytes it is given, however many flushes that
  takes.
\<close>

lemma bytes_at_memcpy:
  "bytes_at (memcpy m p src f n) 0 (p + n) = bytes_at m 0 p @ bytes_at src f n"
proof -
  have "bytes_at (memcpy m p src f n) 0 p = bytes_at m 0 p"
    by (rule bytes_at_cong) (simp add: memcpy_def)
  moreover have "bytes_at (memcpy m p src f n) p n = bytes_at src f n"
    by (rule bytes_at_eqI) (simp_all add: memcpy_def nth_bytes_at)
  ultimately show ?thesis
    by (simp add: bytes_at_append)
qed

lemma add_buffer_loop_output:
  assumes "add_buffer_loop c src f n r = Some (c', f', n')"
    and "buffer_position c + r = buffer_size c"
  shows "column_output c' @ bytes_at src f' n' = column_output c @ bytes_at src f n
         \<and> buffer_size c' = buffer_size c
         \<and> n' < buffer_size c' - buffer_position c'"
  using assms
proof (induction c src f n r rule: add_buffer_loop.induct)
  case (1 c src f n r)
  from "1.prems"(1) have size: "buffer_size c \<noteq> 0"
    by (auto simp: add_buffer_loop.simps [of c src f n r] split: if_splits)
  show ?case
  proof (cases "r \<le> n")
    case False
    with "1.prems" size show ?thesis
      by (auto simp: add_buffer_loop.simps [of c src f n r])
  next
    case True
    let ?c1 = "flush_buffer
                 (c\<lparr>buffer := memcpy (buffer c) (buffer_position c) src f r,
                    buffer_position := buffer_position c + r\<rparr>)"
    from True size "1.prems"(1)
    have rec: "add_buffer_loop ?c1 src (f + r) (n - r) (buffer_size c) = Some (c', f', n')"
      by (simp add: add_buffer_loop.simps [of c src f n r])
    have "buffer_position ?c1 + buffer_size c = buffer_size ?c1"
      by (simp add: flush_buffer_def)
    from "1.IH" [OF size True rec this]
    have "column_output c' @ bytes_at src f' n' = column_output ?c1 @ bytes_at src (f + r) (n - r)"
      and rest: "buffer_size c' = buffer_size ?c1" "n' < buffer_size c' - buffer_position c'"
      by auto
    moreover have "column_output ?c1 = column_output c @ bytes_at src f r"
      by (simp add: column_output_def flush_buffer_def bytes_at_memcpy)
    moreover from True have "bytes_at src f n = bytes_at src f r @ bytes_at src (f + r) (n - r)"
      using bytes_at_append [of src f r "n - r"] by simp
    ultimately show ?thesis
      by (simp add: flush_buffer_def)
  qed
qed

lemma add_buffer_loop_returns:
  "buffer_size c \<noteq> 0 \<Longrightarrow> \<exists>res. add_buffer_loop c src f n r = Some res"
proof (induction c src f n r rule: add_buffer_loop.induct)
  case (1 c src f n r)
  show ?case
  proof (cases "r \<le> n")
    case False
    with "1.prems" show ?thesis
      by (simp add: add_buffer_loop.simps [of c src f n r])
  next
    case True
    with "1.IH" [OF "1.prems" True] "1.prems" show ?thesis
      by (simp add: add_buffer_loop.simps [of c src f n r] flush_buffer_def)
  qed
qed

lemma add_buffer_to_column_output:
  assumes "buffer_size c \<noteq> 0" and "buffer_position c \<le> buffer_size c"
  shows "\<exists>c'. add_buffer_to_column c src f n = Some c'
            \<and> column_output c' = column_output c @ bytes_at src f n
            \<and> buffer_size c' = buffer_size c \<and> buffer_position c' \<le> buffer_size c'"
proof -
  from add_buffer_loop_returns [OF assms(1)] obtain c1 f1 n1 where
    loop: "add_buffer_loop c src f n (buffer_size c - buffer_position c) = Some (c1, f1, n1)"
    by (metis prod_cases3)
  from add_buffer_loop_output [OF loop] assms(2)
  have out: "column_output c1 @ bytes_at src f1 n1 = column_output c @ bytes_at src f n"
    and size: "buffer_size c1 = buffer_size c" "n1 < buffer_size c1 - buffer_position c1"
    by auto
  show ?thesis
  proof (cases "n1 = 0")
    case True
    with loop out size show ?thesis
      by (simp add: add_buffer_to_column_def)
  next
    case False
    have "column_output (c1\<lparr>buffer := memcpy (buffer c1) (buffer_position c1) src f1 n1,
                            buffer_position := buffer_position c1 + n1\<rparr>)
            = column_output c1 @ bytes_at src f1 n1"
      by (simp add: column_output_def bytes_at_memcpy)
    with False loop out size show ?thesis
      by (simp add: add_buffer_to_column_def)
  qed
qed

text \<open>
  The sentinel branch of \<^verbatim>\<open>case InSimpleColumn\<close>: the column receives the bytes from
  \<open>previous_ptr\<close> up to \<^verbatim>\<open>input_buffer + BUFFER_SIZE\<close>, wherever the bytes read end.
\<close>

lemma in_simple_column_at_sentinel:
  assumes "rawmemchr (input_buffer st) (previous_ptr st) COMMA = Some (COMMA_SENTINEL st)"
    and "previous_ptr st \<le> BUFFER_SIZE"
    and "current_column st < length (column_infos st)"
    and "buffer_size (column_infos st ! current_column st) \<noteq> 0"
    and "buffer_position (column_infos st ! current_column st)
           \<le> buffer_size (column_infos st ! current_column st)"
  shows "\<exists>st'. in_simple_column st = Inr (read_chunk st')
           \<and> column_output (column_infos st' ! current_column st)
               = column_output (column_infos st ! current_column st)
                   @ bytes_at (input_buffer st) (previous_ptr st)
                       (BUFFER_SIZE - previous_ptr st)"
proof -
  from add_buffer_to_column_output [OF assms(4,5)] obtain c' where
    "add_buffer_to_column (column_infos st ! current_column st) (input_buffer st)
        (previous_ptr st) (BUFFER_SIZE - previous_ptr st) = Some c'"
    and "column_output c' = column_output (column_infos st ! current_column st)
           @ bytes_at (input_buffer st) (previous_ptr st) (BUFFER_SIZE - previous_ptr st)"
    by blast
  with assms(1-3) show ?thesis
    by (simp add: in_simple_column_def copy_to_column_def with_column_def)
qed

text \<open>
  Claim C7 says that in \<^verbatim>\<open>InSimpleColumn\<close>, when the scan for the next comma ends at the comma
  sentinel, exactly the bytes from \<open>previous_ptr\<close> to the end of the valid window are copied,
  and nothing behind them. The code copies up to \<^verbatim>\<open>input_buffer + BUFFER_SIZE\<close>. That is the
  end of the valid window after a read of full size. After a shorter read, where the source
  moves the sentinels behind the last byte read, the copy takes the three sentinel bytes and
  the stale or uninitialised rest of the buffer with it: for the three-byte input \<^verbatim>\<open>abc\<close>
  the column file receives 16384 bytes.
\<close>

theorem short_read_copies_beyond_valid_region:
  "split_csv (env\<lparr>can_create := (\<lambda>path. True)\<rparr>) name [Bytes ''abc'']
   = Inr \<lparr>files = [(name @ ''001.csv'',
                      ''abc'' @ [NEWLINE, COMMA, DQUOTE]
                        @ bytes_at (fresh_input_buffer env) 6 16378)],
          unfreed_blocks = 0\<rparr>"
  apply (simp add: eval_simps)
  apply (rule bytes_at_eqI)
   apply simp
  apply (simp add: nth_append nth_Cons' nth_bytes_at)
  done

text \<open>
  Claim C1 says that the column files do not depend on how the input is cut into reads. The
  three bytes \<^verbatim>\<open>ab\n\<close> give the column \<^verbatim>\<open>ab\n\<close> when one read delivers them. When a first
  read delivers \<^verbatim>\<open>a\<close> and a second one \<^verbatim>\<open>b\n\<close>, as a pipe may, the field is cut by a short
  read and the copy of C7 puts the sentinels and the rest of the buffer between \<^verbatim>\<open>a\<close> and
  \<^verbatim>\<open>b\<close>.
\<close>

theorem output_depends_on_read_boundaries:
  "split_csv (env\<lparr>can_create := (\<lambda>path. True)\<rparr>) name [Bytes (''ab'' @ [NEWLINE])]
   = Inr \<lparr>files = [(name @ ''001.csv'', ''ab'' @ [NEWLINE])], unfreed_blocks = 0\<rparr>
  \<and> split_csv (env\<lparr>can_create := (\<lambda>path. True)\<rparr>) name
       [Bytes ''a'', Bytes (''b'' @ [NEWLINE])]
   = Inr \<lparr>files = [(name @ ''001.csv'',
                      ''a'' @ [NEWLINE, COMMA, DQUOTE]
                        @ bytes_at (fresh_input_buffer env) 4 16380 @ ''b'' @ [NEWLINE])],
          unfreed_blocks = 0\<rparr>
  \<and> split_csv (env\<lparr>can_create := (\<lambda>path. True)\<rparr>) name [Bytes (''ab'' @ [NEWLINE])]
   \<noteq> split_csv (env\<lparr>can_create := (\<lambda>path. True)\<rparr>) name
         [Bytes ''a'', Bytes (''b'' @ [NEWLINE])]"
proof -
  have one: "split_csv (env\<lparr>can_create := (\<lambda>path. True)\<rparr>) name [Bytes (''ab'' @ [NEWLINE])]
     = Inr \<lparr>files = [(name @ ''001.csv'', ''ab'' @ [NEWLINE])], unfreed_blocks = 0\<rparr>"
    by (simp add: eval_simps)
  have two: "split_csv (env\<lparr>can_create := (\<lambda>path. True)\<rparr>) name
       [Bytes ''a'', Bytes (''b'' @ [NEWLINE])]
     = Inr \<lparr>files = [(name @ ''001.csv'',
                      ''a'' @ [NEWLINE, COMMA, DQUOTE]
                        @ bytes_at (fresh_input_buffer env) 4 16380 @ ''b'' @ [NEWLINE])],
          unfreed_blocks = 0\<rparr>"
    apply (simp add: eval_simps)
    apply (rule bytes_at_eqI)
     apply simp
    apply (simp add: nth_append nth_Cons' nth_bytes_at)
    done
  show ?thesis
    unfolding one two by simp
qed

lemma read_into_inside: "i < length bs \<Longrightarrow> read_into m bs i = bs ! i"
  by (simp add: read_into_def)

lemma read_into_outside: "length bs \<le> i \<Longrightarrow> read_into m bs i = m i"
  by (simp add: read_into_def)

section \<open>Quoted fields (C6)\<close>

text \<open>
  The bytes between the quotes of a quoted field: any bytes, where a quote only occurs doubled.
  \<open>unescape\<close> is the value they stand for under the doubled-quote rule.
\<close>

fun well_quoted :: "byte list \<Rightarrow> bool" where
  "well_quoted [] = True"
| "well_quoted [c] = (c \<noteq> DQUOTE)"
| "well_quoted (c # d # cs) =
     (if c = DQUOTE then d = DQUOTE \<and> well_quoted cs else well_quoted (d # cs))"

fun unescape :: "byte list \<Rightarrow> byte list" where
  "unescape [] = []"
| "unescape [c] = [c]"
| "unescape (c # d # cs) =
     (if c = DQUOTE \<and> d = DQUOTE then DQUOTE # unescape cs else c # unescape (d # cs))"

lemma rawmemchr_first:
  assumes "p \<le> q" and "q < INPUT_ALLOC" and "m q = c"
  shows "\<exists>r. rawmemchr m p c = Some r \<and> p \<le> r \<and> r \<le> q \<and> m r = c
              \<and> (\<forall>i. p \<le> i \<and> i < r \<longrightarrow> m i \<noteq> c)"
  using assms
proof (induction "q - p" arbitrary: p)
  case 0
  then have "p = q" by simp
  with "0.prems" show ?case by (auto simp: rawmemchr.simps [of m q c])
next
  case (Suc d)
  then have lt: "p < q" and d: "d = q - (p + 1)" by simp_all
  show ?case
  proof (cases "m p = c")
    case True
    with lt Suc.prems show ?thesis by (auto simp: rawmemchr.simps [of m p c])
  next
    case False
    from Suc.hyps(1) [of "p + 1"] d lt Suc.prems obtain r where
      r: "rawmemchr m (p + 1) c = Some r" "p + 1 \<le> r" "r \<le> q" "m r = c"
        "\<forall>i. p + 1 \<le> i \<and> i < r \<longrightarrow> m i \<noteq> c"
      by auto
    have "\<forall>i. p \<le> i \<and> i < r \<longrightarrow> m i \<noteq> c"
    proof (intro allI impI)
      fix i assume "p \<le> i \<and> i < r"
      then show "m i \<noteq> c" using False r(5) by (cases "i = p") auto
    qed
    with False lt Suc.prems r show ?thesis
      by (simp add: rawmemchr.simps [of m p c])
  qed
qed

lemma well_quoted_at_quote:
  assumes "well_quoted (bytes_at m l (e - l))" and "l \<le> q" and "q < e"
    and "\<forall>i. l \<le> i \<and> i < q \<longrightarrow> m i \<noteq> DQUOTE" and "m q = DQUOTE"
  shows "q + 1 < e \<and> m (q + 1) = DQUOTE \<and> well_quoted (bytes_at m (q + 2) (e - (q + 2)))"
  using assms
proof (induction "q - l" arbitrary: l)
  case 0
  then have [simp]: "l = q" by simp
  from \<open>q < e\<close> obtain k where k: "e - q = Suc k"
    by (metis Suc_diff_Suc)
  show ?case
  proof (cases k)
    case 0
    with k "0.prems"(1,5) show ?thesis by simp
  next
    case (Suc j)
    with k have "e - (q + 2) = j" and "q + 1 < e" by simp_all
    with k Suc "0.prems"(1,5) show ?thesis by simp
  qed
next
  case (Suc d)
  then have lt: "l < q" and d: "d = q - (l + 1)" by simp_all
  with Suc.prems have nq: "m l \<noteq> DQUOTE" by simp
  from lt \<open>q < e\<close> obtain k where k: "e - l = Suc (Suc k)"
    by (metis Suc_diff_Suc Suc_lessD less_trans_Suc)
  then have "e - (l + 1) = Suc k" by simp
  with Suc.prems(1) k nq have "well_quoted (bytes_at m (l + 1) (e - (l + 1)))"
    by simp
  with Suc.hyps(1) [of "l + 1"] d lt Suc.prems show ?case
    by simp
qed


text \<open>
  The scan of a quoted field inside one window. \<open>B0\<close> is the window as read, \<open>e\<close> the position
  of the closing quote, which the newline of the row follows. While the scan moves over the
  doubled quotes of the field, the buffer is \<open>B0\<close> with one newline turned into a comma; when
  it arrives at the closing quote, that newline is the one behind it.
\<close>

lemma revert_newline_in_window:
  assumes win: "B0 e = DQUOTE" "B0 (e + 1) = NEWLINE" "e + 3 < BUFFER_SIZE"
    and inv: "input_buffer st = B0(next_newline st := COMMA)" "B0 (next_newline st) = NEWLINE"
      "next_newline st \<le> e + 1" "NEWLINE_SENTINEL st = e + 2"
    and q: "q \<le> e" "B0 q = DQUOTE"
  shows "\<exists>n. revert_newline st q = Inr (st\<lparr>input_buffer := B0(n := COMMA), next_newline := n\<rparr>)
             \<and> B0 n = NEWLINE \<and> q < n \<and> n \<le> e + 1"
proof (cases "next_newline st < q")
  case True
  have restored: "(input_buffer st)(next_newline st := NEWLINE) = B0"
    using inv(1,2) by auto
  from win(2,3) q(1) rawmemchr_first [of q "e + 1" B0 NEWLINE] obtain n where
    n: "rawmemchr B0 q NEWLINE = Some n" "q \<le> n" "n \<le> e + 1" "B0 n = NEWLINE"
    by (auto simp: INPUT_ALLOC_def)
  from n(2,4) q(2) have "q < n" by (cases "q = n") auto
  moreover from q(1) win(3) have "q < BUFFER_SIZE" by simp
  ultimately show ?thesis
    using True n inv(4) restored
    by (intro exI [of _ n]) (simp add: revert_newline_def mark_next_newline_def)
next
  case False
  moreover from inv(2) q(2) have "q \<noteq> next_newline st" by auto
  ultimately have "q < next_newline st" by simp
  moreover have "st\<lparr>input_buffer := B0(next_newline st := COMMA),
                    next_newline := next_newline st\<rparr> = st"
    using inv(1) by simp
  ultimately show ?thesis
    using False inv(2,3)
    by (intro exI [of _ "next_newline st"]) (simp add: revert_newline_def)
qed

lemma in_quoted_string_column_same:
  "rawmemchr (input_buffer st) l DQUOTE = Some q \<Longrightarrow> revert_newline st q = Inr st1 \<Longrightarrow>
   rawmemchr (input_buffer st') l' DQUOTE = Some q \<Longrightarrow> revert_newline st' q = Inr st1 \<Longrightarrow>
     in_quoted_string_column st l = in_quoted_string_column st' l'"
  by (simp add: in_quoted_string_column.simps [of st l]
                in_quoted_string_column.simps [of st' l'])

lemma scan_to_closing_quote:
  assumes win: "B0 e = DQUOTE" "B0 (e + 1) = NEWLINE" "e + 3 < BUFFER_SIZE"
    and inv: "input_buffer st = B0(next_newline st := COMMA)" "B0 (next_newline st) = NEWLINE"
      "next_newline st \<le> e + 1" "NEWLINE_SENTINEL st = e + 2"
    and sentinel: "DQUOTE_SENTINEL st = e + 4"
    and wq: "well_quoted (bytes_at B0 l (e - l))" "l \<le> e"
  shows "in_quoted_string_column st l =
           in_quoted_string_column
             (st\<lparr>input_buffer := B0(e + 1 := COMMA), next_newline := e + 1\<rparr>) e"
  using inv sentinel wq
proof (induction "e - l" arbitrary: st l rule: less_induct)
  case less
  let ?m = "input_buffer st"
  let ?canon = "st\<lparr>input_buffer := B0(e + 1 := COMMA), next_newline := e + 1\<rparr>"
  have alloc: "e < INPUT_ALLOC"
    using win(3) by (simp add: INPUT_ALLOC_def)
  have "?m e = DQUOTE"
    using less.prems(1,2) win(1) by auto
  with rawmemchr_first [of l e ?m DQUOTE] less.prems(7) alloc obtain q where
    q: "rawmemchr ?m l DQUOTE = Some q" "l \<le> q" "q \<le> e" "?m q = DQUOTE"
      "\<forall>i. l \<le> i \<and> i < q \<longrightarrow> ?m i \<noteq> DQUOTE"
    by auto
  from q(4) less.prems(1) have Bq: "B0 q = DQUOTE"
    by (cases "q = next_newline st") auto
  have before: "\<forall>i. l \<le> i \<and> i < q \<longrightarrow> B0 i \<noteq> DQUOTE"
  proof (intro allI impI)
    fix i assume i: "l \<le> i \<and> i < q"
    show "B0 i \<noteq> DQUOTE"
    proof (cases "i = next_newline st")
      case True
      with less.prems(2) show ?thesis by simp
    next
      case False
      with q(5) i less.prems(1) show ?thesis by auto
    qed
  qed
  from revert_newline_in_window [OF win less.prems(1-4) q(3) Bq] obtain n where
    v: "revert_newline st q = Inr (st\<lparr>input_buffer := B0(n := COMMA), next_newline := n\<rparr>)"
    and n: "B0 n = NEWLINE" "q < n" "n \<le> e + 1"
    by blast
  let ?st1 = "st\<lparr>input_buffer := B0(n := COMMA), next_newline := n\<rparr>"
  show ?case
  proof (cases "q = e")
    case True
    with n have n': "n = e + 1" by simp
    have "rawmemchr (input_buffer ?canon) e DQUOTE = Some q"
      using win(1) alloc True by (simp add: rawmemchr.simps [of _ e])
    moreover have "revert_newline ?canon q = Inr ?st1"
      using True n' by (simp add: revert_newline_def)
    ultimately show ?thesis
      using q(1) v by (intro in_quoted_string_column_same)
  next
    case False
    with q(3) have "q < e" by simp
    from well_quoted_at_quote [OF less.prems(6) q(2) this before Bq]
    have pair: "q + 1 < e" "B0 (q + 1) = DQUOTE"
      and wq': "well_quoted (bytes_at B0 (q + 2) (e - (q + 2)))"
      by simp_all
    from pair(2) n(1) have "q + 1 \<noteq> n" by auto
    with n(2) have n2: "q + 2 \<le> n" by simp
    have "q \<noteq> BUFFER_SIZE - 1" and "q \<noteq> e + 4" and "\<not> INPUT_ALLOC \<le> q + 1"
      using pair(1) win(3) by (simp_all add: INPUT_ALLOC_def)
    then have "in_quoted_string_column st l = in_quoted_string_column ?st1 (q + 2)"
      using q(1) v pair(2) \<open>q + 1 \<noteq> n\<close> less.prems(5)
      by (simp add: in_quoted_string_column.simps [of st l])
    also have "\<dots> = in_quoted_string_column
                      (?st1\<lparr>input_buffer := B0(e + 1 := COMMA), next_newline := e + 1\<rparr>) e"
      using less.hyps [of "q + 2" ?st1] q(2) pair(1) n n2 wq' less.prems(4,5)
      by simp
    finally show ?thesis by simp
  qed
qed


lemma add_buffer_to_column_fits:
  assumes "n < buffer_size c - buffer_position c"
  shows "add_buffer_to_column c src f n =
           Some (c\<lparr>buffer := memcpy (buffer c) (buffer_position c) src f n,
                    buffer_position := buffer_position c + n\<rparr>)"
proof -
  from assms have "buffer_size c \<noteq> 0" by simp
  with assms have "add_buffer_loop c src f n (buffer_size c - buffer_position c) = Some (c, f, n)"
    by (simp add: add_buffer_loop.simps [of c src f n])
  moreover have "memcpy (buffer c) (buffer_position c) src f 0 = buffer c"
    by (rule ext) (auto simp: memcpy_def)
  ultimately show ?thesis
    by (cases "n = 0") (simp_all add: add_buffer_to_column_def)
qed

lemma rawmemchr_here: "p < INPUT_ALLOC \<Longrightarrow> m p = c \<Longrightarrow> rawmemchr m p c = Some p"
  by (simp add: rawmemchr.simps [of m p c])

lemma receive_short_chunk:
  assumes "length bs \<noteq> BUFFER_SIZE" and "current_state st \<noteq> OnRowInitial"
    and "rawmemchr ((read_into (input_buffer st) bs)
                      (length bs := NEWLINE, length bs + 1 := COMMA, length bs + 2 := DQUOTE))
           0 NEWLINE = Some nl"
    and "nl \<noteq> length bs"
  shows "receive_chunk st bs =
           Inr (st\<lparr>input_buffer :=
                      ((read_into (input_buffer st) bs)
                         (length bs := NEWLINE, length bs + 1 := COMMA, length bs + 2 := DQUOTE))
                      (nl := COMMA),
                   NEWLINE_SENTINEL := length bs, COMMA_SENTINEL := length bs + 1,
                   DQUOTE_SENTINEL := length bs + 2, previous_ptr := 0, next_newline := nl\<rparr>)"
  using assms by (simp add: receive_chunk_def Let_def mark_next_newline_def)

lemma step_opening_quote_of_first_column:
  assumes "current_state st = OnColumnInitial" and "previous_ptr st \<noteq> NEWLINE_SENTINEL st"
    and "previous_ptr st < INPUT_ALLOC" and "input_buffer st (previous_ptr st) = DQUOTE"
    and "column_infos st = []" and "current_column st = 0" and "current_row st = 0"
    and "can_create env (name @ ''001.csv'')"
  shows "step env name st =
           Inr (state_begin
             (st\<lparr>column_infos :=
                   [\<lparr>output_fd = name @ ''001.csv'', written = [],
                     buffer = memset (memset (fresh_column_buffer env 1) 0 NEWLINE 0) 0 DQUOTE 1,
                     buffer_size = BUFFER_SIZE, buffer_position = 1,
                     on_heap = should_use_heap env (BUFFER_SIZE + 10)\<rparr>],
                 heap_blocks := heap_blocks st
                    + (if should_use_heap env (BUFFER_SIZE + 10) then 1 else 0),
                 previous_ptr := previous_ptr st + 1,
                 current_state := InQuotedStringColumn\<rparr>))"
  using assms
  by (simp add: step_def on_column_initial_def CHECK_AND_CREATE_COLUMN_def
                CREATE_COLUMN_INFO_def with_column_def add_chars_to_column_def
                sprintf_03zu_1 BUFFER_SIZE_def)

lemma closing_quote_at_end_of_row:
  assumes "input_buffer st e = DQUOTE" and "input_buffer st (e + 1) = COMMA"
    and "input_buffer st (e + 2) = NEWLINE" and "next_newline st = e + 1"
    and "NEWLINE_SENTINEL st = e + 2" and "DQUOTE_SENTINEL st = e + 4"
    and "e + 4 < BUFFER_SIZE"
    and "column_infos st = [c]" and "current_column st = 0" and "previous_ptr st \<le> e + 1"
    and "buffer_size c = BUFFER_SIZE"
    and "buffer_position c + (e + 1 - previous_ptr st) + 1 \<le> BUFFER_SIZE"
  shows "in_quoted_string_column st e =
           Inr (state_begin
             (st\<lparr>column_infos :=
                   [c\<lparr>buffer := memset
                                   (memcpy (buffer c) (buffer_position c) (input_buffer st)
                                      (previous_ptr st) (e + 1 - previous_ptr st))
                                   (buffer_position c + (e + 1 - previous_ptr st)) NEWLINE 1,
                      buffer_position := buffer_position c + (e + 1 - previous_ptr st) + 1\<rparr>],
                 current_column := 1, previous_ptr := e + 2, next_newline := e + 2,
                 current_state := OnRowInitial\<rparr>))"
proof -
  have "rawmemchr (input_buffer st) e DQUOTE = Some e"
    using assms(1,7) by (intro rawmemchr_here) (simp_all add: INPUT_ALLOC_def)
  moreover have "revert_newline st e = Inr st"
    using assms(4) by (simp add: revert_newline_def)
  moreover have "rawmemchr (input_buffer st) (e + 2) NEWLINE = Some (e + 2)"
    using assms(3,7) by (intro rawmemchr_here) (simp_all add: INPUT_ALLOC_def)
  moreover have "add_buffer_to_column c (input_buffer st) (previous_ptr st)
                   (e + 1 - previous_ptr st)
                 = Some (c\<lparr>buffer := memcpy (buffer c) (buffer_position c) (input_buffer st)
                                         (previous_ptr st) (e + 1 - previous_ptr st),
                            buffer_position := buffer_position c + (e + 1 - previous_ptr st)\<rparr>)"
    using assms(11,12) by (intro add_buffer_to_column_fits) simp
  moreover have "e \<noteq> BUFFER_SIZE - 1" and "\<not> INPUT_ALLOC \<le> e + 1"
    using assms(7) by (simp_all add: INPUT_ALLOC_def)
  ultimately show ?thesis
    using assms
    by (simp add: in_quoted_string_column.simps [of st e] copy_to_column_def with_column_def
                  terminate_column_def add_chars_to_column_def mark_next_newline_def
                  INPUT_ALLOC_def)
qed


text \<open>
  A row that consists of one quoted field and arrives in one read shorter than the buffer is
  copied to its column file byte for byte, whatever commas, newlines and doubled quotes the
  field holds.
\<close>

lemma quoted_field_in_one_window_preserved:
  assumes "well_quoted body" and "length body + 5 < BUFFER_SIZE"
  shows "split_csv (env\<lparr>can_create := (\<lambda>path. True)\<rparr>) name
           [Bytes ([DQUOTE] @ body @ [DQUOTE, NEWLINE])]
         = Inr \<lparr>files = [(name @ ''001.csv'', [DQUOTE] @ body @ [DQUOTE, NEWLINE])],
                unfreed_blocks = 0\<rparr>"
proof -
  define E where "E = env\<lparr>can_create := (\<lambda>path. True)\<rparr>"
  define H where "H = should_use_heap E (BUFFER_SIZE + 10)"
  define chunk where "chunk = [DQUOTE] @ body @ [DQUOTE, NEWLINE]"
  define e where "e = length body + 1"
  define st0 where "st0 = initial_splitter E"
  define B0 where "B0 = (read_into (input_buffer st0) chunk)
       (length chunk := NEWLINE, length chunk + 1 := COMMA, length chunk + 2 := DQUOTE)"
  have len: "length chunk = e + 2" and ne: "chunk \<noteq> []"
    by (simp_all add: chunk_def e_def)
  have small: "e + 4 < BUFFER_SIZE"
    using assms(2) by (simp add: e_def)
  have st0: "current_state st0 = OnColumnInitial" "column_infos st0 = []"
    "current_column st0 = 0" "current_row st0 = 0" "input_buffer_on_heap st0 = H"
    "heap_blocks st0 = (if H then 1 else 0)"
    by (simp_all add: st0_def initial_splitter_def H_def)
  have inside: "B0 i = chunk ! i" if "i < e + 2" for i
    using that by (simp add: B0_def read_into_def len)
  have B0_0: "B0 0 = DQUOTE"
    by (simp add: inside) (simp add: chunk_def)
  have B0_e: "B0 e = DQUOTE"
    by (simp add: inside) (simp add: chunk_def e_def nth_append)
  have B0_e1: "B0 (e + 1) = NEWLINE"
    by (simp add: inside) (simp add: chunk_def e_def nth_append)
  have B0_e2: "B0 (e + 2) = NEWLINE"
    by (simp add: B0_def len)
  have B0_body: "bytes_at B0 1 (e - 1) = body"
  proof (rule bytes_at_eqI)
    show "length body = e - 1" by (simp add: e_def)
    fix i assume "i < e - 1"
    then have "B0 (1 + i) = chunk ! (1 + i)" by (intro inside) simp
    with \<open>i < e - 1\<close> show "B0 (1 + i) = body ! i"
      by (simp add: chunk_def e_def nth_append)
  qed
  from rawmemchr_first [of 0 "e + 1" B0 NEWLINE] B0_e1 small obtain nl where
    nl: "rawmemchr B0 0 NEWLINE = Some nl" "nl \<le> e + 1" "B0 nl = NEWLINE"
    by (auto simp: INPUT_ALLOC_def)
  from nl(3) B0_0 have nl0: "nl \<noteq> 0" by (intro notI) simp
  define stA where
    "stA = st0\<lparr>input_buffer := B0(nl := COMMA), NEWLINE_SENTINEL := length chunk,
               COMMA_SENTINEL := length chunk + 1, DQUOTE_SENTINEL := length chunk + 2,
               previous_ptr := 0, next_newline := nl\<rparr>"
  have A: "receive_chunk st0 chunk = Inr stA"
    unfolding stA_def B0_def
    using nl(1) [unfolded B0_def] nl(2) small st0(1)
    by (intro receive_short_chunk) (simp_all add: len)
  define colB where
    "colB = \<lparr>output_fd = name @ ''001.csv'', written = [],
             buffer = memset (memset (fresh_column_buffer E 1) 0 NEWLINE 0) 0 DQUOTE 1,
             buffer_size = BUFFER_SIZE, buffer_position = 1,
             on_heap = should_use_heap E (BUFFER_SIZE + 10)\<rparr>"
  define stB where
    "stB = stA\<lparr>column_infos := [colB],
               heap_blocks := heap_blocks stA
                  + (if should_use_heap E (BUFFER_SIZE + 10) then 1 else 0),
               previous_ptr := previous_ptr stA + 1,
               current_state := InQuotedStringColumn\<rparr>"
  have B: "step E name stA = Inr (state_begin stB)"
    unfolding stB_def colB_def
    using st0 nl0 B0_0 small
    by (intro step_opening_quote_of_first_column)
       (simp_all add: stA_def len INPUT_ALLOC_def E_def)
  define stBc where "stBc = stB\<lparr>input_buffer := B0(e + 1 := COMMA), next_newline := e + 1\<rparr>"
  have C0: "step E name stB = in_quoted_string_column stB 1"
    by (simp add: step_def stB_def stA_def len)
  have C1: "in_quoted_string_column stB 1 = in_quoted_string_column stBc e"
    unfolding stBc_def
    using B0_e B0_e1 small nl assms(1) B0_body
    by (intro scan_to_closing_quote) (simp_all add: stB_def stA_def len e_def)
  define stC where
    "stC = stBc\<lparr>column_infos :=
                   [colB\<lparr>buffer := memset
                                   (memcpy (buffer colB) (buffer_position colB)
                                      (input_buffer stBc) (previous_ptr stBc)
                                      (e + 1 - previous_ptr stBc))
                                   (buffer_position colB + (e + 1 - previous_ptr stBc))
                                   NEWLINE 1,
                         buffer_position :=
                           buffer_position colB + (e + 1 - previous_ptr stBc) + 1\<rparr>],
                 current_column := 1, previous_ptr := e + 2, next_newline := e + 2,
                 current_state := OnRowInitial\<rparr>"
  have C2: "in_quoted_string_column stBc e = Inr (state_begin stC)"
    unfolding stC_def
    using B0_e B0_e2 small st0
    by (intro closing_quote_at_end_of_row)
       (simp_all add: stBc_def stB_def stA_def colB_def len)
  have D: "step E name stC = Inr (read_chunk stC)"
    by (simp add: step_def stC_def stBc_def stB_def stA_def len)
  have C: "step E name stB = Inr (state_begin stC)"
    by (simp only: C0 C1 C2)
  have "process_chunk E name stA = Inr stC"
    by (simp add: process_chunk.simps [of E name stA] process_chunk.simps [of E name stB]
                  process_chunk.simps [of E name stC] B C D)
  with A ne have run: "read_loop E name st0 [Bytes chunk] = Inr (end_of_stream stC)"
    by simp
  have content: "bytes_at (buffer (hd (column_infos stC))) 0 (e + 2) = chunk"
  proof (rule bytes_at_eqI)
    show "length chunk = e + 2" by (rule len)
    fix i assume i: "i < e + 2"
    show "buffer (hd (column_infos stC)) (0 + i) = chunk ! i"
    proof (cases "i = 0 \<or> i = e + 1")
      case True
      with inside [of i] B0_0 B0_e1 show ?thesis
        by (auto simp: stC_def stBc_def stB_def stA_def colB_def memset_def memcpy_def)
    next
      case False
      with i inside [of i] show ?thesis
        by (simp add: stC_def stBc_def stB_def stA_def colB_def memset_def memcpy_def)
    qed
  qed
  show ?thesis
    unfolding E_def [symmetric] chunk_def [symmetric]
    using run content st0
    by (simp add: split_csv_def st0_def [symmetric] end_of_stream_def flush_buffer_def
                  stC_def stBc_def stB_def stA_def colB_def H_def)
qed

text \<open>The field of the spec's example, with the value it stands for.\<close>

lemma quoted_field_example:
  "unescape (''a,b'' @ [DQUOTE, DQUOTE] @ ''c'') = ''a,b'' @ [DQUOTE] @ ''c''
   \<and> split_csv (env\<lparr>can_create := (\<lambda>path. True)\<rparr>) name
      [Bytes ([DQUOTE] @ (''a,b'' @ [DQUOTE, DQUOTE] @ ''c'') @ [DQUOTE, NEWLINE])]
   = Inr \<lparr>files = [(name @ ''001.csv'',
                      [DQUOTE] @ (''a,b'' @ [DQUOTE, DQUOTE] @ ''c'') @ [DQUOTE, NEWLINE])],
          unfreed_blocks = 0\<rparr>"
  using quoted_field_in_one_window_preserved [of "''a,b'' @ [DQUOTE, DQUOTE] @ ''c''" env name]
  by (simp add: BUFFER_SIZE_def)

text \<open>
  Claim C6 says that every quoted field reaches its column file with its embedded commas and
  its doubled quotes. It fails for a quoted field whose doubled quote straddles two windows.
  In the input below, a file of 16388 bytes, the field is a quote, 16382 times \<^verbatim>\<open>a\<close>, a
  doubled quote, \<^verbatim>\<open>c\<close> and the closing quote. The first read fills the buffer and ends with
  the first quote of the pair; the source goes to \<^verbatim>\<open>InQuotedStringColumnOnQuote\<close>, and on the
  next window the assertion of C3 ends the process before the rest of the field is copied.
\<close>

theorem quote_on_last_byte_of_window:
  "split_csv (env\<lparr>can_create := (\<lambda>path. True)\<rparr>) name
     [Bytes ([DQUOTE] @ replicate 16382 CHR ''a'' @ [DQUOTE]),
      Bytes ([DQUOTE] @ ''c'' @ [DQUOTE, NEWLINE])]
   = Inl AssertionFailed"
proof -
  define bs where "bs = [DQUOTE] @ replicate 16382 CHR ''a'' @ [DQUOTE]"
  define rest where "rest = [Bytes ([DQUOTE] @ ''c'' @ [DQUOTE, NEWLINE])]"
  have len: "length bs = 16384" and ne: "bs \<noteq> []"
    by (simp_all add: bs_def)
  have first: "bs ! 0 = DQUOTE"
    by (simp add: bs_def)
  have last: "bs ! 16383 = DQUOTE"
    by (simp add: bs_def nth_append)
  have middle: "bs ! i = CHR ''a''" if "0 < i" and "i < 16383" for i
    using that by (simp add: bs_def nth_Cons' nth_append)
  have no_newline: "read_into m bs i \<noteq> NEWLINE" if "i < 16384" for m i
  proof (cases "i = 0 \<or> i = 16383")
    case True
    with first last len show ?thesis by (auto simp: read_into_inside)
  next
    case False
    with that middle [of i] len show ?thesis by (simp add: read_into_inside)
  qed
  have newline: "rawmemchr (read_into m bs) 0 NEWLINE = Some 16384" if "m 16384 = NEWLINE" for m
    using that no_newline len
    by (intro rawmemchr_eqI) (simp_all add: INPUT_ALLOC_def BUFFER_SIZE_def read_into_outside)
  have quote: "rawmemchr (read_into m bs) (Suc 0) DQUOTE = Some 16383" for m
    using middle last len
    by (intro rawmemchr_eqI) (simp_all add: INPUT_ALLOC_def BUFFER_SIZE_def read_into_inside)
  have start: "read_into m bs 0 = DQUOTE" for m
    using first len by (simp add: read_into_inside)
  have resume: "read_loop env' name st rest = Inl AssertionFailed"
    if "current_state st = InQuotedStringColumnOnQuote" for env' st
    unfolding rest_def using that
    by (intro read_loop_on_quote) (simp_all add: BUFFER_SIZE_def)
  show ?thesis
    unfolding bs_def [symmetric] rest_def [symmetric]
    by (simp add: state_defs loop_simps newline quote start len ne resume)
qed

end
